theory Spec2Isabelle
  imports Main "HOL-Library.Word" "HOL-Library.AList" "HOL-Library.Product_Lexorder"
begin

section \<open>Shared vocabulary\<close>

type_synonym u32 = "32 word"

text \<open>
  Go \<open>error\<close> values. \<open>ErrorString\<close> is \<open>errors.New(msg)\<close>; \<open>ExternalError\<close> stands for
  an error produced by a collaborator outside the repository (SQL driver, XDR codec,
  ledger backend, history archive), tagged by an opaque code.
\<close>

datatype error =
    ErrorString string
  | ErrEmptyDB
  | ErrNoRows
  | ErrTxDone
  | ErrSyntax
  | ErrRange
  | ContextCanceled
  | ExternalError nat

section \<open>Cursor\<close>

record Cursor =
  Ledger :: u32
  Tx :: u32
  Op :: u32
  Event :: u32

definition cmp :: "u32 \<Rightarrow> u32 \<Rightarrow> int" where
  "cmp a b = (if a < b then - 1 else if a > b then 1 else 0)"

text \<open>
  Modelled from the spec: the file defining \<open>Cursor.Cmp\<close> is not among the sources;
  the cursor is "the 4-tuple above, totally ordered lexicographically". The result is
  negative, zero or positive as for Go comparison functions.
\<close>

definition Cmp :: "Cursor \<Rightarrow> Cursor \<Rightarrow> int" where
  "Cmp c other =
     (if Ledger c = Ledger other then
        if Tx c = Tx other then
          if Op c = Op other then cmp (Event c) (Event other)
          else cmp (Op c) (Op other)
        else cmp (Tx c) (Tx other)
      else cmp (Ledger c) (Ledger other))"

text \<open>\<open>Cursor{Ledger: l}\<close>: the remaining fields take Go's zero value.\<close>

definition CursorAtLedger :: "u32 \<Rightarrow> Cursor" where
  "CursorAtLedger l = \<lparr>Ledger = l, Tx = 0, Op = 0, Event = 0\<rparr>"

section \<open>Ledger bucket window\<close>

record 'a LedgerBucket =
  LedgerSeq :: u32
  LedgerCloseTimestamp :: int
  BucketContent :: 'a

text \<open>
  Modelled from the spec: the ledgerbucketwindow package is not among the sources. The
  window is a fixed-capacity ordered sequence of buckets; the ring buffer is represented
  by the sequence \<open>get(0), get(1), ...\<close> it exposes.
\<close>

record 'a LedgerBucketWindow =
  capacity :: u32
  buckets :: "'a LedgerBucket list"

definition NewLedgerBucketWindow :: "u32 \<Rightarrow> 'a LedgerBucketWindow" where
  "NewLedgerBucketWindow retentionWindow = \<lparr>capacity = retentionWindow, buckets = []\<rparr>"

definition Len :: "'a LedgerBucketWindow \<Rightarrow> u32" where
  "Len w = of_nat (length (buckets w))"

text \<open>Modelled from the spec: \<open>get(i)\<close> is 0-based and panics (\<open>None\<close>) if out of range.\<close>

definition Get :: "'a LedgerBucketWindow \<Rightarrow> u32 \<Rightarrow> 'a LedgerBucket option" where
  "Get w i = (if i < Len w then Some (buckets w ! unat i) else None)"

text \<open>
  Modelled from the spec: \<open>append(bucket)\<close> requires
  \<open>bucket.ledger_seq == last().ledger_seq + 1\<close> unless the window is empty, and panics
  (\<open>None\<close>) otherwise; if \<open>len == W\<close> it evicts index 0 before inserting.
\<close>

definition Append :: "'a LedgerBucketWindow \<Rightarrow> 'a LedgerBucket \<Rightarrow> 'a LedgerBucketWindow option" where
  "Append w bucket =
     (if buckets w \<noteq> [] \<and> LedgerSeq bucket \<noteq> LedgerSeq (last (buckets w)) + 1 then None
      else if Len w = capacity w then Some (w\<lparr>buckets := drop 1 (buckets w) @ [bucket]\<rparr>)
      else Some (w\<lparr>buckets := buckets w @ [bucket]\<rparr>))"

section \<open>Event store\<close>

record 'c event =
  contents :: 'c
  txIndex :: u32
  opIndex :: u32
  eventIndex :: u32

definition cursor :: "'c event \<Rightarrow> u32 \<Rightarrow> Cursor" where
  "cursor e ledgerSeq = \<lparr>Ledger = ledgerSeq, Tx = txIndex e, Op = opIndex e, Event = eventIndex e\<rparr>"

record 'c MemoryStore =
  networkPassphrase :: string
  eventsByLedger :: "'c event list LedgerBucketWindow"

definition NewMemoryStore :: "string \<Rightarrow> u32 \<Rightarrow> 'c MemoryStore" where
  "NewMemoryStore passphrase retentionWindow =
     \<lparr>networkPassphrase = passphrase, eventsByLedger = NewLedgerBucketWindow retentionWindow\<rparr>"

record Range =
  Start :: Cursor
  ClampStart :: bool
  End :: Cursor
  ClampEnd :: bool

text \<open>
  \<open>validateRange\<close> mutates the range through a pointer; the model returns the adjusted
  range on success. The outer \<open>option\<close> is \<open>None\<close> when the Go code panics.
\<close>

definition validateRange :: "'c MemoryStore \<Rightarrow> Range \<Rightarrow> (error + Range) option" where
  "validateRange m eventRange =
     (if Len (eventsByLedger m) = 0 then Some (Inl (ErrorString ''event store is empty''))
      else case Get (eventsByLedger m) 0 of
        None \<Rightarrow> None
      | Some firstBucket \<Rightarrow>
          let min = CursorAtLedger (LedgerSeq firstBucket) in
          if Cmp (Start eventRange) min < 0 \<and> \<not> ClampStart eventRange
          then Some (Inl (ErrorString ''start is before oldest ledger''))
          else
            let r1 = (if Cmp (Start eventRange) min < 0 then eventRange\<lparr>Start := min\<rparr> else eventRange);
                max = CursorAtLedger (Ledger min + Len (eventsByLedger m))
            in if Cmp (Start r1) max \<ge> 0
               then Some (Inl (ErrorString ''start is after newest ledger''))
               else if Cmp (End r1) max > 0 \<and> \<not> ClampEnd r1
               then Some (Inl (ErrorString ''end is after latest ledger''))
               else
                 let r2 = (if Cmp (End r1) max > 0 then r1\<lparr>End := max\<rparr> else r1)
                 in if Cmp (Start r2) (End r2) \<ge> 0
                    then Some (Inl (ErrorString ''start is not before end''))
                    else Some (Inr r2))"

text \<open>
  Go's \<open>sort.Search(n, f)\<close>: binary search for the smallest index in \<open>[0, n)\<close> at which
  \<open>f\<close> holds, \<open>n\<close> if there is none (\<open>f\<close> is assumed monotone by the library).
\<close>

function Search_loop :: "(nat \<Rightarrow> bool) \<Rightarrow> nat \<Rightarrow> nat \<Rightarrow> nat" where
  "Search_loop f i j =
     (if i < j then
        let h = (i + j) div 2 in
        if \<not> f h then Search_loop f (h + 1) j else Search_loop f i h
      else i)"
  by pat_completeness auto
termination
  by (relation "measure (\<lambda>(f, i, j). j - i)") auto

declare Search_loop.simps [simp del]

definition Search :: "nat \<Rightarrow> (nat \<Rightarrow> bool) \<Rightarrow> nat" where
  "Search n f = Search_loop f 0 n"

definition seek :: "'c event list \<Rightarrow> Cursor \<Rightarrow> 'c event list" where
  "seek events c =
     (let j = Search (length events) (\<lambda>i. Cmp c (cursor (events ! i) (Ledger c)) \<le> 0)
      in drop j events)"

text \<open>
  The visitor is a Go closure; its captured variables are the state \<open>'s\<close> that it reads
  and updates on every call.
\<close>

type_synonym ('c, 's) visitor = "'s \<Rightarrow> 'c \<Rightarrow> Cursor \<Rightarrow> int \<Rightarrow> bool \<times> 's"

text \<open>
  The inner loop of \<open>Scan\<close> over the events of one bucket. The flag is \<open>False\<close> when the
  loop left \<open>Scan\<close> through one of its two early returns.
\<close>

fun scan_events ::
  "Cursor \<Rightarrow> ('c, 's) visitor \<Rightarrow> u32 \<Rightarrow> int \<Rightarrow> 'c event list \<Rightarrow> 's \<Rightarrow> bool \<times> 's" where
  "scan_events rangeEnd f ledgerSeq timestamp [] s = (True, s)"
| "scan_events rangeEnd f ledgerSeq timestamp (e # es) s =
     (let cur = cursor e ledgerSeq in
      if Cmp rangeEnd cur \<le> 0 then (False, s)
      else case f s (contents e) cur timestamp of
        (ok, s') \<Rightarrow> if \<not> ok then (False, s')
                    else scan_events rangeEnd f ledgerSeq timestamp es s')"

text \<open>The outer loop of \<open>Scan\<close>, with its \<open>uint32\<close> index.\<close>

function scan_buckets ::
  "'c event list LedgerBucketWindow \<Rightarrow> Range \<Rightarrow> ('c, 's) visitor \<Rightarrow> u32 \<Rightarrow> u32 \<Rightarrow> 's \<Rightarrow> 's option" where
  "scan_buckets w eventRange f firstLedgerInRange i s =
     (if i < Len w then
        case Get w i of
          None \<Rightarrow> None
        | Some bucket \<Rightarrow>
            let events = (if LedgerSeq bucket = firstLedgerInRange
                          then seek (BucketContent bucket) (Start eventRange)
                          else BucketContent bucket);
                timestamp = LedgerCloseTimestamp bucket
            in (case scan_events (End eventRange) f (LedgerSeq bucket) timestamp events s of
                  (False, s') \<Rightarrow> Some s'
                | (True, s') \<Rightarrow> scan_buckets w eventRange f firstLedgerInRange (i + 1) s')
      else Some s)"
  by pat_completeness auto
termination
proof (relation "measure (\<lambda>(w, eventRange, f, firstLedgerInRange, i, s). unat (Len w) - unat i)")
  show "wf (measure (\<lambda>(w, eventRange, f, firstLedgerInRange, i, s). unat (Len w) - unat i))"
    by simp
next
  fix w :: "'c event list LedgerBucketWindow" and i :: u32
  fix eventRange f firstLedgerInRange s x2 x xa y x2a xb ya
  assume lt: "i < Len w"
  then have lt': "unat i < unat (Len w)"
    by (simp add: word_less_nat_alt)
  moreover have "unat (Len w) < 2 ^ LENGTH(32)"
    by (rule unsigned_less)
  ultimately have "unat i + unat (1 :: u32) < 2 ^ LENGTH(32)"
    by simp
  then have "unat (i + 1) = unat i + 1"
    by (simp add: unat_add_lem [THEN iffD1])
  with lt' show "((w, eventRange, f, firstLedgerInRange, i + 1, ya :: 's), (w, eventRange, f, firstLedgerInRange, i, s))
        \<in> measure (\<lambda>(w, eventRange, f, firstLedgerInRange, i, s). unat (Len w) - unat i)"
    by simp
qed

declare scan_buckets.simps [simp del]

text \<open>
  \<open>Scan\<close> returns \<open>(lastLedgerInWindow, nil)\<close> or \<open>(0, err)\<close>; the second component of the
  model is the visitor's state when \<open>Scan\<close> returns. \<open>None\<close> is a panic.
\<close>

definition Scan ::
  "'c MemoryStore \<Rightarrow> Range \<Rightarrow> ('c, 's) visitor \<Rightarrow> 's \<Rightarrow> ((error + u32) \<times> 's) option" where
  "Scan m eventRange f s =
     (case validateRange m eventRange of
        None \<Rightarrow> None
      | Some (Inl err) \<Rightarrow> Some (Inl err, s)
      | Some (Inr r) \<Rightarrow>
          (case Get (eventsByLedger m) 0 of
             None \<Rightarrow> None
           | Some b0 \<Rightarrow>
               let firstLedgerInRange = Ledger (Start r);
                   firstLedgerInWindow = LedgerSeq b0;
                   lastLedgerInWindow = firstLedgerInWindow + (Len (eventsByLedger m) - 1)
               in (case scan_buckets (eventsByLedger m) r f firstLedgerInRange
                          (firstLedgerInRange - firstLedgerInWindow) s of
                     None \<Rightarrow> None
                   | Some s' \<Rightarrow> Some (Inr lastLedgerInWindow, s'))))"


subsection \<open>Notions used to state the properties of the event store\<close>

text \<open>
  The window holds at most \<open>capacity\<close> buckets, so that its \<open>uint32\<close> length is exact.
\<close>

definition window_bounded :: "'a LedgerBucketWindow \<Rightarrow> bool" where
  "window_bounded w \<longleftrightarrow> length (buckets w) \<le> unat (capacity w)"

text \<open>The cursor of the earliest ledger of a non-empty store.\<close>

definition oldest :: "'c MemoryStore \<Rightarrow> Cursor" where
  "oldest m = CursorAtLedger (LedgerSeq (hd (buckets (eventsByLedger m))))"

text \<open>The cursor at ledger \<open>latest + 1\<close>, that is \<open>earliest + len\<close>.\<close>

definition newest_bound :: "'c MemoryStore \<Rightarrow> Cursor" where
  "newest_bound m =
     CursorAtLedger (LedgerSeq (hd (buckets (eventsByLedger m))) + Len (eventsByLedger m))"

definition clamped_start :: "'c MemoryStore \<Rightarrow> Range \<Rightarrow> Cursor" where
  "clamped_start m r = (if Cmp (Start r) (oldest m) < 0 then oldest m else Start r)"

definition clamped_end :: "'c MemoryStore \<Rightarrow> Range \<Rightarrow> Cursor" where
  "clamped_end m r = (if Cmp (End r) (newest_bound m) > 0 then newest_bound m else End r)"

text \<open>The position of a cursor as a tuple, ordered lexicographically.\<close>

definition pos :: "Cursor \<Rightarrow> u32 \<times> u32 \<times> u32 \<times> u32" where
  "pos c = (Ledger c, Tx c, Op c, Event c)"

text \<open>A visitor that records the cursors it is called on and never stops the scan.\<close>

definition collect :: "('c, Cursor list) visitor" where
  "collect s c cur timestamp = (True, s @ [cur])"

text \<open>
  A store with retention window 3 after ingesting ledgers 1 to 5, one event each
  (ledgers 3, 4 and 5 remain).
\<close>

definition one_event_bucket :: "u32 \<Rightarrow> nat event list LedgerBucket" where
  "one_event_bucket l =
     \<lparr>LedgerSeq = l, LedgerCloseTimestamp = 1000 + uint l,
      BucketContent = [\<lparr>contents = unat l, txIndex = 1, opIndex = 0, eventIndex = 0\<rparr>]\<rparr>"

definition store345 :: "nat MemoryStore" where
  "store345 =
     \<lparr>networkPassphrase = ''unit-tests'',
      eventsByLedger =
        \<lparr>capacity = 3, buckets = [one_event_bucket 3, one_event_bucket 4, one_event_bucket 5]\<rparr>\<rparr>"

definition ledger_range :: "u32 \<Rightarrow> bool \<Rightarrow> u32 \<Rightarrow> bool \<Rightarrow> Range" where
  "ledger_range a ca b cb =
     \<lparr>Start = CursorAtLedger a, ClampStart = ca, End = CursorAtLedger b, ClampEnd = cb\<rparr>"

subsection \<open>Notions used to state what a scan visits\<close>

text \<open>One visitor call: the event's contents, its cursor and its ledger's close time.\<close>

type_synonym 'c call = "'c \<times> Cursor \<times> int"

definition calls_of :: "'c event list LedgerBucket \<Rightarrow> 'c call list" where
  "calls_of b =
     map (\<lambda>e. (contents e, cursor e (LedgerSeq b), LedgerCloseTimestamp b)) (BucketContent b)"

text \<open>All stored events, in the order of the window and of each bucket.\<close>

definition stored_calls :: "'c MemoryStore \<Rightarrow> 'c call list" where
  "stored_calls m = concat (map calls_of (buckets (eventsByLedger m)))"

definition call_cursor :: "'c call \<Rightarrow> Cursor" where
  "call_cursor x = fst (snd x)"

text \<open>The cursor of a call lies in \<open>[Start, End)\<close>.\<close>

definition in_range :: "Range \<Rightarrow> 'c call \<Rightarrow> bool" where
  "in_range r x \<longleftrightarrow> Cmp (Start r) (call_cursor x) \<le> 0 \<and> Cmp (call_cursor x) (End r) < 0"

text \<open>
  Calling the visitor on a list of events in order, until it returns false. The flag is
  \<open>False\<close> when the visitor stopped the scan.
\<close>

fun visit :: "('c, 's) visitor \<Rightarrow> 's \<Rightarrow> 'c call list \<Rightarrow> bool \<times> 's" where
  "visit f s [] = (True, s)"
| "visit f s (x # xs) =
     (case f s (fst x) (fst (snd x)) (snd (snd x)) of
        (ok, s') \<Rightarrow> if ok then visit f s' xs else (False, s'))"

text \<open>Invariant I3: the ledger sequences of consecutive buckets are consecutive.\<close>

definition contiguous :: "'a LedgerBucket list \<Rightarrow> bool" where
  "contiguous bs \<longleftrightarrow> (\<forall>i. Suc i < length bs \<longrightarrow> LedgerSeq (bs ! Suc i) = LedgerSeq (bs ! i) + 1)"

text \<open>
  Invariant I5: the events of a bucket are in ascending order of their position
  \<open>(tx_index, op_index, event_index)\<close>; a position identifies one event.
\<close>

definition bucket_sorted :: "'c event list LedgerBucket \<Rightarrow> bool" where
  "bucket_sorted b \<longleftrightarrow>
     sorted_wrt (\<lambda>e e'. (txIndex e, opIndex e, eventIndex e) < (txIndex e', opIndex e', eventIndex e'))
       (BucketContent b)"

definition window_invariants :: "'c event list LedgerBucketWindow \<Rightarrow> bool" where
  "window_invariants w \<longleftrightarrow>
     window_bounded w \<and> contiguous (buckets w) \<and> (\<forall>b \<in> set (buckets w). bucket_sorted b)"

text \<open>
  One ledger, two events in two transactions at ledger 5, in a store with retention
  window 100.
\<close>

definition store5 :: "nat MemoryStore" where
  "store5 =
     \<lparr>networkPassphrase = ''unit-tests'',
      eventsByLedger =
        \<lparr>capacity = 100,
         buckets = [\<lparr>LedgerSeq = 5, LedgerCloseTimestamp = 1005,
                     BucketContent = [\<lparr>contents = 10, txIndex = 1, opIndex = 0, eventIndex = 0\<rparr>,
                                      \<lparr>contents = 20, txIndex = 2, opIndex = 0, eventIndex = 0\<rparr>]\<rparr>]\<rparr>\<rparr>"

text \<open>A visitor that records the cursor it is called on and stops the scan.\<close>

definition collect_first :: "('c, Cursor list) visitor" where
  "collect_first s c cur timestamp = (False, s @ [cur])"

section \<open>Ledger close records and event ingestion\<close>

text \<open>
  \<open>ingest.LedgerTransaction\<close> as far as \<open>readEvents\<close> looks at it: the index of the
  transaction in the ledger, \<open>tx.Result.Successful()\<close>, and for each operation of the
  envelope what \<open>tx.GetOperationEvents\<close> returns for it.
\<close>

record 'c LedgerTransaction =
  Index :: u32
  Successful :: bool
  OperationEvents :: "(error + 'c list) list"

text \<open>One \<open>Read()\<close> of a reader of the ingest library: a value or an error.\<close>

datatype 'a read = ReadOk 'a | ReadError error

text \<open>A change of a ledger entry: created or updated (\<open>Post\<close> is set), or removed.\<close>

datatype ('k, 'e) Change = Upserted 'k 'e | Removed 'k

text \<open>
  \<open>xdr.LedgerCloseMeta\<close>, together with what the readers of the ingest library (outside
  the repository) make of it: whether a reader can be opened, the results of its
  successive \<open>Read()\<close> calls before \<open>io.EOF\<close>, and the result of \<open>Close()\<close>. The close time is
  the \<open>uint64\<close> of the header.
\<close>

record ('c, 'k, 'e, 't) LedgerCloseMeta =
  LedgerSequence :: u32
  CloseTime :: "64 word"
  txReaderError :: "error option"
  txReads :: "'c LedgerTransaction read list"
  txReaderCloseError :: "error option"
  changeReaderError :: "error option"
  changeReads :: "('k, 'e) Change read list"
  changeReaderCloseError :: "error option"
  parsedTransactions :: "error + 't list"

text \<open>The innermost loop of \<open>readEvents\<close>: the events of one operation are appended.\<close>

fun append_op_events :: "u32 \<Rightarrow> u32 \<Rightarrow> nat \<Rightarrow> 'c list \<Rightarrow> 'c event list \<Rightarrow> 'c event list" where
  "append_op_events txi opi j [] events = events"
| "append_op_events txi opi j (opEvent # rest) events =
     append_op_events txi opi (j + 1) rest
       (events @ [\<lparr>contents = opEvent, txIndex = txi, opIndex = opi, eventIndex = of_nat j\<rparr>])"

text \<open>The loop over the operations of one transaction; it returns at the first error.\<close>

fun read_operations ::
  "u32 \<Rightarrow> nat \<Rightarrow> (error + 'c list) list \<Rightarrow> 'c event list \<Rightarrow> 'c event list \<times> error option" where
  "read_operations txi i [] events = (events, None)"
| "read_operations txi i (Inl err # rest) events = (events, Some err)"
| "read_operations txi i (Inr opEvents # rest) events =
     read_operations txi (i + 1) rest (append_op_events txi (of_nat i) 0 opEvents events)"

text \<open>
  The loop over the transactions: \<open>io.EOF\<close> (the end of the list) ends it without error,
  any other read error is returned, an unsuccessful transaction is skipped.
\<close>

fun read_transactions ::
  "'c LedgerTransaction read list \<Rightarrow> 'c event list \<Rightarrow> 'c event list \<times> error option" where
  "read_transactions [] events = (events, None)"
| "read_transactions (ReadError err # rest) events = (events, Some err)"
| "read_transactions (ReadOk tx # rest) events =
     (if \<not> Successful tx then read_transactions rest events
      else case read_operations (Index tx) 0 (OperationEvents tx) events of
             (events', Some err) \<Rightarrow> (events', Some err)
           | (events', None) \<Rightarrow> read_transactions rest events')"

text \<open>
  \<open>readEvents\<close> has named results \<open>(events, err)\<close>; the deferred function replaces a nil
  error by the error of closing the reader.
\<close>

definition readEvents ::
  "string \<Rightarrow> ('c, 'k, 'e, 't) LedgerCloseMeta \<Rightarrow> 'c event list \<times> error option" where
  "readEvents passphrase ledgerCloseMeta =
     (case txReaderError ledgerCloseMeta of
        Some err \<Rightarrow> ([], Some err)
      | None \<Rightarrow>
          (case read_transactions (txReads ledgerCloseMeta) [] of
             (events, Some err) \<Rightarrow> (events, Some err)
           | (events, None) \<Rightarrow> (events, txReaderCloseError ledgerCloseMeta)))"

text \<open>
  \<open>IngestEvents\<close> returns the error and leaves the updated store; \<open>None\<close> is the panic of
  the window on a ledger that does not follow the last one.
\<close>

definition IngestEvents ::
  "'c MemoryStore \<Rightarrow> ('c, 'k, 'e, 't) LedgerCloseMeta \<Rightarrow> (error option \<times> 'c MemoryStore) option" where
  "IngestEvents m ledgerCloseMeta =
     (case readEvents (networkPassphrase m) ledgerCloseMeta of
        (events, Some err) \<Rightarrow> Some (Some err, m)
      | (events, None) \<Rightarrow>
          let bucket = \<lparr>LedgerSeq = LedgerSequence ledgerCloseMeta,
                        LedgerCloseTimestamp = sint (CloseTime ledgerCloseMeta),
                        BucketContent = events\<rparr>
          in (case Append (eventsByLedger m) bucket of
                None \<Rightarrow> None
              | Some w \<Rightarrow> Some (None, m\<lparr>eventsByLedger := w\<rparr>)))"

subsection \<open>Notions used to state the properties of event ingestion\<close>

text \<open>The events of one transaction, numbered by operation and within the operation.\<close>

definition transaction_events :: "'c LedgerTransaction \<Rightarrow> 'c event list" where
  "transaction_events tx =
     concat (map (\<lambda>(i, r). case r of
                     Inl err \<Rightarrow> []
                   | Inr opEvents \<Rightarrow>
                       map (\<lambda>(j, c). \<lparr>contents = c, txIndex = Index tx,
                                      opIndex = of_nat i, eventIndex = of_nat j\<rparr>)
                         (enumerate 0 opEvents))
               (enumerate 0 (OperationEvents tx)))"

text \<open>The transactions that the reader yields.\<close>

definition ledger_transactions :: "('c, 'k, 'e, 't) LedgerCloseMeta \<Rightarrow> 'c LedgerTransaction list" where
  "ledger_transactions meta = concat (map (\<lambda>x. case x of ReadOk tx \<Rightarrow> [tx] | ReadError err \<Rightarrow> []) (txReads meta))"

text \<open>The events of the successful transactions of a ledger.\<close>

definition successful_events :: "('c, 'k, 'e, 't) LedgerCloseMeta \<Rightarrow> 'c event list" where
  "successful_events meta = concat (map transaction_events (filter Successful (ledger_transactions meta)))"

text \<open>
  Parsing the record succeeds: the reader opens, reads and closes without error, and the
  events of every operation of every successful transaction can be extracted.
\<close>

definition parses :: "('c, 'k, 'e, 't) LedgerCloseMeta \<Rightarrow> bool" where
  "parses meta \<longleftrightarrow>
     txReaderError meta = None
     \<and> (\<forall>x \<in> set (txReads meta). case x of ReadError err \<Rightarrow> False | ReadOk tx \<Rightarrow> True)
     \<and> (\<forall>tx \<in> set (ledger_transactions meta).
          Successful tx \<longrightarrow> (\<forall>r \<in> set (OperationEvents tx). case r of Inl err \<Rightarrow> False | Inr evs \<Rightarrow> True))
     \<and> txReaderCloseError meta = None"

text \<open>The ledger follows the last one of the window, or the window is empty.\<close>

definition follows :: "'a LedgerBucketWindow \<Rightarrow> u32 \<Rightarrow> bool" where
  "follows w l \<longleftrightarrow> buckets w = [] \<or> l = LedgerSeq (last (buckets w)) + 1"

text \<open>
  Ledger 6 with three transactions: the first succeeds and has two operations with two
  and one events, the second fails and has one event, the third succeeds with one event;
  one ledger entry is created.
\<close>

definition meta6 :: "(nat, string, string, nat) LedgerCloseMeta" where
  "meta6 =
     \<lparr>LedgerSequence = 6, CloseTime = 1006,
      txReaderError = None,
      txReads = [ReadOk \<lparr>Index = 1, Successful = True, OperationEvents = [Inr [11, 12], Inr [13]]\<rparr>,
                 ReadOk \<lparr>Index = 2, Successful = False, OperationEvents = [Inr [21]]\<rparr>,
                 ReadOk \<lparr>Index = 3, Successful = True, OperationEvents = [Inr [31]]\<rparr>],
      txReaderCloseError = None,
      changeReaderError = None,
      changeReads = [ReadOk (Upserted ''k1'' ''e1'')],
      changeReaderCloseError = None,
      parsedTransactions = Inr [1, 2, 3]\<rparr>"

text \<open>The same ledger when the third read of the transaction reader fails.\<close>

definition meta6_bad :: "(nat, string, string, nat) LedgerCloseMeta" where
  "meta6_bad =
     meta6\<lparr>txReads := [ReadOk \<lparr>Index = 1, Successful = True, OperationEvents = [Inr [11, 12], Inr [13]]\<rparr>,
                        ReadOk \<lparr>Index = 2, Successful = False, OperationEvents = [Inr [21]]\<rparr>,
                        ReadError (ExternalError 7)]\<rparr>"

section \<open>Entry store\<close>

subsection \<open>Decimal text of the latest ledger sequence\<close>

definition digit_char :: "nat \<Rightarrow> char" where
  "digit_char d = char_of (48 + d)"

text \<open>\<open>fmt.Sprintf("%d", n)\<close> for an unsigned number.\<close>

function FormatUint :: "nat \<Rightarrow> string" where
  "FormatUint n = (if n < 10 then [digit_char n] else FormatUint (n div 10) @ [digit_char (n mod 10)])"
  by pat_completeness auto
termination
  by (relation "measure id") auto

declare FormatUint.simps [simp del]

definition digit_value :: "char \<Rightarrow> nat option" where
  "digit_value c = (let k = (of_char c :: nat) in if 48 \<le> k \<and> k \<le> 57 then Some (k - 48) else None)"

fun parse_digits :: "nat \<Rightarrow> string \<Rightarrow> nat option" where
  "parse_digits acc [] = Some acc"
| "parse_digits acc (c # cs) =
     (case digit_value c of None \<Rightarrow> None | Some d \<Rightarrow> parse_digits (acc * 10 + d) cs)"

text \<open>
  \<open>strconv.ParseUint(s, 10, 32)\<close>: a non-empty string of decimal digits whose value fits
  32 bits.
\<close>

definition ParseUint32 :: "string \<Rightarrow> error + u32" where
  "ParseUint32 s =
     (if s = [] then Inl ErrSyntax
      else case parse_digits 0 s of
        None \<Rightarrow> Inl ErrSyntax
      | Some n \<Rightarrow> if n < 2 ^ 32 then Inr (of_nat n) else Inl ErrRange)"

subsection \<open>The database\<close>

text \<open>
  The two tables of the schema; each has a primary key, so a table is a map from the key
  to the other column.
\<close>

record tables =
  ledger_entries :: "string \<rightharpoonup> string"
  metadata :: "string \<rightharpoonup> string"

definition latestLedgerSequenceMetaKey :: string where
  "latestLedgerSequenceMetaKey = ''LatestLedgerSequence''"

text \<open>The statements that the updater issues.\<close>

datatype statement =
    ReplaceLedgerEntries "(string \<times> string) list"
  | DeleteLedgerEntries "string list"
  | ReplaceMetadata string string
  | InsertLedgerCloseMeta u32

fun replace_rows :: "(string \<times> string) list \<Rightarrow> (string \<rightharpoonup> string) \<Rightarrow> (string \<rightharpoonup> string)" where
  "replace_rows [] t = t"
| "replace_rows ((k, v) # rows) t = replace_rows rows (t(k \<mapsto> v))"

fun delete_rows :: "string list \<Rightarrow> (string \<rightharpoonup> string) \<Rightarrow> (string \<rightharpoonup> string)" where
  "delete_rows [] t = t"
| "delete_rows (k # ks) t = delete_rows ks (t(k := None))"

fun apply_statement :: "statement \<Rightarrow> tables \<Rightarrow> tables" where
  "apply_statement (ReplaceLedgerEntries rows) t = t\<lparr>ledger_entries := replace_rows rows (ledger_entries t)\<rparr>"
| "apply_statement (DeleteLedgerEntries ks) t = t\<lparr>ledger_entries := delete_rows ks (ledger_entries t)\<rparr>"
| "apply_statement (ReplaceMetadata k v) t = t\<lparr>metadata := (metadata t)(k \<mapsto> v)\<rparr>"
| "apply_statement (InsertLedgerCloseMeta l) t = t"

text \<open>What the database was asked to do, in order.\<close>

datatype db_event =
    Began
  | Executed statement
  | ExecFailed statement
  | Committed
  | CommitFailed
  | RolledBack
  | Checkpointed
  | CheckpointFailed

text \<open>
  The database as its clients see it: the committed tables, which are what every reader
  sees; the outcomes of the coming calls into the SQL driver, in order (\<open>Some err\<close>: the
  call fails with \<open>err\<close>; when the list is used up, calls succeed); and the record of
  what was done.
\<close>

record sqlDB =
  committed :: tables
  faults :: "error option list"
  trace :: "db_event list"
  hasPostWriteCommitHook :: bool

definition driver_call :: "sqlDB \<Rightarrow> error option \<times> sqlDB" where
  "driver_call db = (case faults db of [] \<Rightarrow> (None, db) | r # rs \<Rightarrow> (r, db\<lparr>faults := rs\<rparr>))"

definition log_event :: "db_event \<Rightarrow> sqlDB \<Rightarrow> sqlDB" where
  "log_event ev db = db\<lparr>trace := trace db @ [ev]\<rparr>"

text \<open>XDR encoding, provided by a library outside the repository.\<close>

record ('k, 'e) xdr_codec =
  MarshalLedgerKey :: "'k \<Rightarrow> error + string"
  MarshalLedgerEntry :: "'e \<Rightarrow> error + string"
  UnmarshalLedgerEntry :: "string \<Rightarrow> error + 'e"

text \<open>
  The rows a \<open>SELECT\<close> by primary key returns.
\<close>

definition select_by_key :: "(string \<rightharpoonup> string) \<Rightarrow> string \<Rightarrow> string list" where
  "select_by_key t k = (case t k of None \<Rightarrow> [] | Some v \<Rightarrow> [v])"

subsection \<open>Read path\<close>

text \<open>
  The results of the read functions are \<open>None\<close> when the Go code panics. A read runs
  against the tables \<open>t\<close> that its transaction sees.
\<close>

definition encodeLedgerKey :: "('k, 'e) xdr_codec \<Rightarrow> 'k \<Rightarrow> error + string" where
  "encodeLedgerKey xdr key = MarshalLedgerKey xdr key"

definition getLedgerEntry ::
  "('k, 'e) xdr_codec \<Rightarrow> tables \<Rightarrow> 'k \<Rightarrow> sqlDB \<Rightarrow> (error + 'e) option \<times> sqlDB" where
  "getLedgerEntry xdr t key db =
     (case encodeLedgerKey xdr key of
        Inl err \<Rightarrow> (Some (Inl err), db)
      | Inr encodedKey \<Rightarrow>
          (case driver_call db of
             (Some err, db1) \<Rightarrow> (Some (Inl err), db1)
           | (None, db1) \<Rightarrow>
               (case select_by_key (ledger_entries t) encodedKey of
                  [] \<Rightarrow> (Some (Inl ErrNoRows), db1)
                | [ledgerEntryBin] \<Rightarrow> (Some (UnmarshalLedgerEntry xdr ledgerEntryBin), db1)
                | _ \<Rightarrow> (None, db1))))"

definition getLatestLedgerSequence :: "tables \<Rightarrow> sqlDB \<Rightarrow> (error + u32) option \<times> sqlDB" where
  "getLatestLedgerSequence t db =
     (case driver_call db of
        (Some err, db1) \<Rightarrow> (Some (Inl err), db1)
      | (None, db1) \<Rightarrow>
          (case select_by_key (metadata t) latestLedgerSequenceMetaKey of
             [] \<Rightarrow> (Some (Inl ErrEmptyDB), db1)
           | [latestLedgerStr] \<Rightarrow> (Some (ParseUint32 latestLedgerStr), db1)
           | _ \<Rightarrow> (None, db1)))"

definition GetLatestLedgerSequence :: "sqlDB \<Rightarrow> (error + u32) option \<times> sqlDB" where
  "GetLatestLedgerSequence db =
     (case driver_call db of
        (Some err, db1) \<Rightarrow> (Some (Inl err), db1)
      | (None, db1) \<Rightarrow> getLatestLedgerSequence (committed db1) db1)"

text \<open>
  \<open>GetLedgerEntry\<close> returns \<open>(entry, present, latestLedger, err)\<close>; the model returns the
  entry as an option.
\<close>

definition GetLedgerEntry ::
  "('k, 'e) xdr_codec \<Rightarrow> sqlDB \<Rightarrow> 'k \<Rightarrow> (error + 'e option \<times> u32) option \<times> sqlDB" where
  "GetLedgerEntry xdr db key =
     (case driver_call db of
        (Some err, db1) \<Rightarrow> (Some (Inl err), db1)
      | (None, db1) \<Rightarrow>
          (case getLatestLedgerSequence (committed db1) db1 of
             (None, db2) \<Rightarrow> (None, db2)
           | (Some (Inl err), db2) \<Rightarrow> (Some (Inl err), db2)
           | (Some (Inr seq), db2) \<Rightarrow>
               (case getLedgerEntry xdr (committed db2) key db2 of
                  (None, db3) \<Rightarrow> (None, db3)
                | (Some (Inl err), db3) \<Rightarrow>
                    (if err = ErrNoRows then (Some (Inr (None, seq)), db3)
                     else (Some (Inl err), db3))
                | (Some (Inr entry), db3) \<Rightarrow> (Some (Inr (Some entry, seq)), db3))))"

subsection \<open>Write path\<close>

text \<open>
  The updater with its SQL transaction: whether the transaction is still open, the tables
  as the transaction sees them (its snapshot with its own writes), and the fields of
  \<open>ledgerUpdaterTx\<close>. A nil entry of the batch (\<open>None\<close>) implies deletion. The Go map is
  kept as a list of pairs with distinct keys.
\<close>

record ledgerUpdaterTx =
  txOpen :: bool
  txTables :: tables
  postWriteCommitHook :: bool
  forLedgerSequence :: u32
  maxBatchSize :: int
  keyToEntryBatch :: "(string \<times> string option) list"

type_synonym updater_state = "ledgerUpdaterTx \<times> sqlDB"

definition NewLedgerEntryUpdaterTx :: "sqlDB \<Rightarrow> u32 \<Rightarrow> int \<Rightarrow> (error + ledgerUpdaterTx) \<times> sqlDB" where
  "NewLedgerEntryUpdaterTx db forSeq maxBatch =
     (case driver_call db of
        (Some err, db1) \<Rightarrow> (Inl err, db1)
      | (None, db1) \<Rightarrow>
          (Inr \<lparr>txOpen = True, txTables = committed db1,
                postWriteCommitHook = hasPostWriteCommitHook db1,
                forLedgerSequence = forSeq, maxBatchSize = maxBatch,
                keyToEntryBatch = []\<rparr>,
           log_event Began db1))"

text \<open>
  \<open>tx.Exec\<close> (also through the statement cache): a finished transaction refuses with
  \<open>sql.ErrTxDone\<close>; a statement that fails changes nothing.
\<close>

definition tx_Exec :: "statement \<Rightarrow> updater_state \<Rightarrow> error option \<times> updater_state" where
  "tx_Exec st s =
     (case s of (l, db) \<Rightarrow>
        if \<not> txOpen l then (Some ErrTxDone, l, db)
        else case driver_call db of
          (Some err, db1) \<Rightarrow> (Some err, l, log_event (ExecFailed st) db1)
        | (None, db1) \<Rightarrow>
            (None, l\<lparr>txTables := apply_statement st (txTables l)\<rparr>, log_event (Executed st) db1))"

text \<open>
  \<open>tx.Rollback\<close>: the transaction is finished and its writes are discarded; on a
  finished transaction it does nothing (its \<open>sql.ErrTxDone\<close> is ignored by every caller).
\<close>

definition tx_Rollback :: "updater_state \<Rightarrow> updater_state" where
  "tx_Rollback s =
     (case s of (l, db) \<Rightarrow>
        if txOpen l then (l\<lparr>txOpen := False\<rparr>, log_event RolledBack db) else (l, db))"

text \<open>
  \<open>tx.Commit\<close>: the writes of the transaction become the committed tables; when the
  commit fails the transaction is finished and nothing is committed.
\<close>

definition tx_Commit :: "updater_state \<Rightarrow> error option \<times> updater_state" where
  "tx_Commit s =
     (case s of (l, db) \<Rightarrow>
        if \<not> txOpen l then (Some ErrTxDone, l, db)
        else case driver_call db of
          (Some err, db1) \<Rightarrow> (Some err, l\<lparr>txOpen := False\<rparr>, log_event CommitFailed db1)
        | (None, db1) \<Rightarrow>
            (None, l\<lparr>txOpen := False\<rparr>, log_event Committed (db1\<lparr>committed := txTables l\<rparr>)))"

text \<open>The hook installed by \<open>OpenSQLiteDB\<close>: \<open>PRAGMA wal_checkpoint(TRUNCATE)\<close>.\<close>

definition run_postWriteCommitHook :: "sqlDB \<Rightarrow> error option \<times> sqlDB" where
  "run_postWriteCommitHook db =
     (case driver_call db of
        (Some err, db1) \<Rightarrow> (Some err, log_event CheckpointFailed db1)
      | (None, db1) \<Rightarrow> (None, log_event Checkpointed db1))"

definition upsertLatestLedgerSequence :: "u32 \<Rightarrow> updater_state \<Rightarrow> error option \<times> updater_state" where
  "upsertLatestLedgerSequence sequence s =
     tx_Exec (ReplaceMetadata latestLedgerSequenceMetaKey (FormatUint (unat sequence))) s"

text \<open>The rows to write and the keys to delete of a batch.\<close>

fun batch_upserts :: "(string \<times> string option) list \<Rightarrow> (string \<times> string) list" where
  "batch_upserts [] = []"
| "batch_upserts ((key, Some entry) # rest) = (key, entry) # batch_upserts rest"
| "batch_upserts ((key, None) # rest) = batch_upserts rest"

fun batch_deletes :: "(string \<times> string option) list \<Rightarrow> string list" where
  "batch_deletes [] = []"
| "batch_deletes ((key, Some entry) # rest) = batch_deletes rest"
| "batch_deletes ((key, None) # rest) = key # batch_deletes rest"

definition flushLedgerEntryBatch :: "updater_state \<Rightarrow> error option \<times> updater_state" where
  "flushLedgerEntryBatch s =
     (let upserts = batch_upserts (keyToEntryBatch (fst s));
          deleteKeys = batch_deletes (keyToEntryBatch (fst s));
          (err1, s1) = (if length upserts > 0 then tx_Exec (ReplaceLedgerEntries upserts) s
                        else (None, s))
      in case err1 of
           Some err \<Rightarrow> (Some err, s1)
         | None \<Rightarrow>
             if length deleteKeys > 0 then tx_Exec (DeleteLedgerEntries deleteKeys) s1
             else (None, s1))"

definition reset_batch :: "updater_state \<Rightarrow> updater_state" where
  "reset_batch s = (case s of (l, db) \<Rightarrow> (l\<lparr>keyToEntryBatch := []\<rparr>, db))"

definition put_batch :: "string \<Rightarrow> string option \<Rightarrow> updater_state \<Rightarrow> updater_state" where
  "put_batch key entry s =
     (case s of (l, db) \<Rightarrow> (l\<lparr>keyToEntryBatch := AList.update key entry (keyToEntryBatch l)\<rparr>, db))"

text \<open>\<open>upsertLedgerEntry\<close> flushes when the batch has reached \<open>maxBatchSize\<close>.\<close>

definition upsertLedgerEntry ::
  "('k, 'e) xdr_codec \<Rightarrow> 'k \<Rightarrow> 'e \<Rightarrow> updater_state \<Rightarrow> error option \<times> updater_state" where
  "upsertLedgerEntry xdr key entry s =
     (case encodeLedgerKey xdr key of
        Inl err \<Rightarrow> (Some err, s)
      | Inr encodedKey \<Rightarrow>
          (case MarshalLedgerEntry xdr entry of
             Inl err \<Rightarrow> (Some err, s)
           | Inr encodedEntryStr \<Rightarrow>
               let s1 = put_batch encodedKey (Some encodedEntryStr) s in
               if int (length (keyToEntryBatch (fst s1))) \<ge> maxBatchSize (fst s1) then
                 (case flushLedgerEntryBatch s1 of
                    (Some err, s2) \<Rightarrow> (Some err, s2)
                  | (None, s2) \<Rightarrow> (None, reset_batch s2))
               else (None, s1)))"

definition UpsertLedgerEntry ::
  "('k, 'e) xdr_codec \<Rightarrow> 'k \<Rightarrow> 'e \<Rightarrow> updater_state \<Rightarrow> error option \<times> updater_state" where
  "UpsertLedgerEntry xdr key entry s =
     (case upsertLedgerEntry xdr key entry s of
        (Some err, s1) \<Rightarrow> (Some err, tx_Rollback s1)
      | (None, s1) \<Rightarrow> (None, s1))"

text \<open>\<open>deleteLedgerEntry\<close> flushes when the batch has grown beyond \<open>maxBatchSize\<close>.\<close>

definition deleteLedgerEntry ::
  "('k, 'e) xdr_codec \<Rightarrow> 'k \<Rightarrow> updater_state \<Rightarrow> error option \<times> updater_state" where
  "deleteLedgerEntry xdr key s =
     (case encodeLedgerKey xdr key of
        Inl err \<Rightarrow> (Some err, s)
      | Inr encodedKey \<Rightarrow>
          let s1 = put_batch encodedKey None s in
          if int (length (keyToEntryBatch (fst s1))) > maxBatchSize (fst s1) then
            (case flushLedgerEntryBatch s1 of
               (Some err, s2) \<Rightarrow> (Some err, s2)
             | (None, s2) \<Rightarrow> (None, reset_batch s2))
          else (None, s1))"

definition DeleteLedgerEntry ::
  "('k, 'e) xdr_codec \<Rightarrow> 'k \<Rightarrow> updater_state \<Rightarrow> error option \<times> updater_state" where
  "DeleteLedgerEntry xdr key s =
     (case deleteLedgerEntry xdr key s of
        (Some err, s1) \<Rightarrow> (Some err, tx_Rollback s1)
      | (None, s1) \<Rightarrow> (None, s1))"

text \<open>\<open>done\<close>: the counterpart of \<open>Done\<close> with no rollbacks or commits.\<close>

definition done_inner :: "updater_state \<Rightarrow> error option \<times> updater_state" where
  "done_inner s =
     (case flushLedgerEntryBatch s of
        (Some err, s1) \<Rightarrow> (Some err, s1)
      | (None, s1) \<Rightarrow> upsertLatestLedgerSequence (forLedgerSequence (fst s1)) s1)"

definition Done :: "updater_state \<Rightarrow> error option \<times> updater_state" where
  "Done s =
     (case done_inner s of
        (Some err, s1) \<Rightarrow> (Some err, tx_Rollback s1)
      | (None, s1) \<Rightarrow>
          (case tx_Commit s1 of
             (Some err, s2) \<Rightarrow> (Some err, s2)
           | (None, l2, db2) \<Rightarrow>
               if postWriteCommitHook l2 then
                 (case run_postWriteCommitHook db2 of
                    (Some err, db3) \<Rightarrow> (Some err, l2, db3)
                  | (None, db3) \<Rightarrow> (None, l2, db3))
               else (None, l2, db2)))"

subsection \<open>Notions used to state the properties of the entry store\<close>

text \<open>The statements a flush of the batch issues: at most one multi-row upsert, then at
  most one multi-row delete.\<close>

definition flush_statements :: "(string \<times> string option) list \<Rightarrow> statement list" where
  "flush_statements batch =
     (if batch_upserts batch \<noteq> [] then [ReplaceLedgerEntries (batch_upserts batch)] else [])
     @ (if batch_deletes batch \<noteq> [] then [DeleteLedgerEntries (batch_deletes batch)] else [])"

text \<open>What was done on the database between two of its states.\<close>

definition new_events :: "sqlDB \<Rightarrow> sqlDB \<Rightarrow> db_event list" where
  "new_events db db' = drop (length (trace db)) (trace db')"

text \<open>
  Between two states of the database nothing was committed: readers see the same tables.
\<close>

definition nothing_committed :: "sqlDB \<Rightarrow> sqlDB \<Rightarrow> bool" where
  "nothing_committed db db' \<longleftrightarrow>
     committed db' = committed db
     \<and> hasPostWriteCommitHook db' = hasPostWriteCommitHook db
     \<and> (\<exists>evs. trace db' = trace db @ evs \<and> Committed \<notin> set evs)"

text \<open>
  Examples: an empty database with the checkpoint hook installed, a codec on strings
  that refuses the key \<open>''bad''\<close>, and an updater for ledger 10 whose batch holds one
  upsert and one deletion.
\<close>

definition empty_db :: sqlDB where
  "empty_db =
     \<lparr>committed = \<lparr>ledger_entries = Map.empty, metadata = Map.empty\<rparr>,
      faults = [], trace = [], hasPostWriteCommitHook = True\<rparr>"

definition string_codec :: "(string, string) xdr_codec" where
  "string_codec =
     \<lparr>MarshalLedgerKey = (\<lambda>k. if k = ''bad'' then Inl (ExternalError 1) else Inr k),
      MarshalLedgerEntry = Inr,
      UnmarshalLedgerEntry = Inr\<rparr>"

definition updater10 :: ledgerUpdaterTx where
  "updater10 =
     \<lparr>txOpen = True, txTables = committed empty_db, postWriteCommitHook = True,
      forLedgerSequence = 10, maxBatchSize = 150,
      keyToEntryBatch = [(''k1'', Some ''e1''), (''k2'', None)]\<rparr>"

subsection \<open>Sequences of calls on an updater\<close>

datatype ('k, 'e) updater_call = CallUpsert 'k 'e | CallDelete 'k | CallDone

definition call_updater ::
  "('k, 'e) xdr_codec \<Rightarrow> ('k, 'e) updater_call \<Rightarrow> updater_state \<Rightarrow> error option \<times> updater_state" where
  "call_updater xdr c s =
     (case c of
        CallUpsert key entry \<Rightarrow> UpsertLedgerEntry xdr key entry s
      | CallDelete key \<Rightarrow> DeleteLedgerEntry xdr key s
      | CallDone \<Rightarrow> Done s)"

text \<open>A caller that returns at the first error.\<close>

fun call_all ::
  "('k, 'e) xdr_codec \<Rightarrow> ('k, 'e) updater_call list \<Rightarrow> updater_state \<Rightarrow> error option \<times> updater_state" where
  "call_all xdr [] s = (None, s)"
| "call_all xdr (c # cs) s =
     (case call_updater xdr c s of
        (Some err, s') \<Rightarrow> (Some err, s')
      | (None, s') \<Rightarrow> call_all xdr cs s')"

text \<open>A caller that goes on whatever the calls return.\<close>

fun call_regardless ::
  "('k, 'e) xdr_codec \<Rightarrow> ('k, 'e) updater_call list \<Rightarrow> updater_state \<Rightarrow> updater_state" where
  "call_regardless xdr [] s = s"
| "call_regardless xdr (c # cs) s = call_regardless xdr cs (snd (call_updater xdr c s))"

text \<open>
  One transaction: open the updater, perform the upserts and deletes, commit with
  \<open>Done\<close>.
\<close>

definition run_transaction ::
  "('k, 'e) xdr_codec \<Rightarrow> sqlDB \<Rightarrow> u32 \<Rightarrow> int \<Rightarrow> ('k, 'e) updater_call list \<Rightarrow> error option \<times> sqlDB" where
  "run_transaction xdr db forSeq maxBatch ops =
     (case NewLedgerEntryUpdaterTx db forSeq maxBatch of
        (Inl err, db1) \<Rightarrow> (Some err, db1)
      | (Inr l, db1) \<Rightarrow>
          (case call_all xdr ops (l, db1) of
             (Some err, l2, db2) \<Rightarrow> (Some err, db2)
           | (None, s2) \<Rightarrow> (case Done s2 of (r, l3, db3) \<Rightarrow> (r, db3))))"

text \<open>The last upsert or delete of a list of calls on the row with encoded key \<open>k\<close>.\<close>

fun on_row :: "('k, 'e) xdr_codec \<Rightarrow> string \<Rightarrow> ('k, 'e) updater_call \<Rightarrow> bool" where
  "on_row xdr k (CallUpsert key entry) = (encodeLedgerKey xdr key = Inr k)"
| "on_row xdr k (CallDelete key) = (encodeLedgerKey xdr key = Inr k)"
| "on_row xdr k CallDone = False"

definition last_on_row ::
  "('k, 'e) xdr_codec \<Rightarrow> string \<Rightarrow> ('k, 'e) updater_call list \<Rightarrow> ('k, 'e) updater_call option" where
  "last_on_row xdr k ops =
     (case filter (on_row xdr k) ops of [] \<Rightarrow> None | c # cs \<Rightarrow> Some (last (c # cs)))"

text \<open>The row that an upsert or delete leaves: the encoded entry, or none.\<close>

fun row_after :: "('k, 'e) xdr_codec \<Rightarrow> ('k, 'e) updater_call \<Rightarrow> string option" where
  "row_after xdr (CallUpsert key entry) =
     (case MarshalLedgerEntry xdr entry of Inl err \<Rightarrow> None | Inr s \<Rightarrow> Some s)"
| "row_after xdr (CallDelete key) = None"
| "row_after xdr CallDone = None"

text \<open>The calls are upserts and deletes only.\<close>

fun is_write :: "('k, 'e) updater_call \<Rightarrow> bool" where
  "is_write CallDone = False"
| "is_write c = True"

text \<open>What the transaction sees of a row: its batch first, then its tables.\<close>

definition tx_view :: "ledgerUpdaterTx \<Rightarrow> string \<rightharpoonup> string" where
  "tx_view l k =
     (case map_of (keyToEntryBatch l) k of
        Some entry \<Rightarrow> entry
      | None \<Rightarrow> ledger_entries (txTables l) k)"

text \<open>The entry that an upsert or delete leaves.\<close>

fun entry_after :: "('k, 'e) updater_call \<Rightarrow> 'e option" where
  "entry_after (CallUpsert key entry) = Some entry"
| "entry_after (CallDelete key) = None"
| "entry_after CallDone = None"

text \<open>Decoding an encoded entry gives the entry back.\<close>

definition codec_roundtrip :: "('k, 'e) xdr_codec \<Rightarrow> bool" where
  "codec_roundtrip xdr \<longleftrightarrow>
     (\<forall>e s. MarshalLedgerEntry xdr e = Inr s \<longrightarrow> UnmarshalLedgerEntry xdr s = Inr e)"

text \<open>
  Examples: an updater with batch size 2 that holds one upsert; a database whose next
  driver call fails, and one whose third driver call fails.
\<close>

definition updater_small :: ledgerUpdaterTx where
  "updater_small = updater10\<lparr>maxBatchSize := 2, keyToEntryBatch := [(''k1'', Some ''e1'')]\<rparr>"

definition failing_db :: sqlDB where
  "failing_db = empty_db\<lparr>faults := [Some (ExternalError 5)]\<rparr>"

definition failing_later_db :: sqlDB where
  "failing_later_db = empty_db\<lparr>faults := [None, None, Some (ExternalError 6)]\<rparr>"

section \<open>Ingestion driver\<close>

subsection \<open>Collaborators and state\<close>

text \<open>
  Modelled from the spec: the transaction store is not among the sources; it has the
  "same window-of-buckets structure" as the event store, "keyed by ledger", and ingests
  the transactions of a ledger. Parsing the ledger's transactions may fail; then the
  store is unchanged.
\<close>

record 't TransactionStore =
  transactionsByLedger :: "'t list LedgerBucketWindow"

definition IngestTransactions ::
  "'t TransactionStore \<Rightarrow> ('c, 'k, 'e, 't) LedgerCloseMeta \<Rightarrow> (error option \<times> 't TransactionStore) option" where
  "IngestTransactions m ledgerCloseMeta =
     (case parsedTransactions ledgerCloseMeta of
        Inl err \<Rightarrow> Some (Some err, m)
      | Inr txs \<Rightarrow>
          let bucket = \<lparr>LedgerSeq = LedgerSequence ledgerCloseMeta,
                        LedgerCloseTimestamp = sint (CloseTime ledgerCloseMeta),
                        BucketContent = txs\<rparr>
          in (case Append (transactionsByLedger m) bucket of
                None \<Rightarrow> None
              | Some w \<Rightarrow> Some (None, m\<lparr>transactionsByLedger := w\<rparr>)))"

text \<open>
  The collaborators outside the repository, as functions: the ledger backend
  (\<open>GetLedger\<close>, \<open>PrepareRange\<close> of the unbounded range from a sequence), the history
  archive (\<open>GetRootHAS().CurrentLedger\<close>, and what a checkpoint change reader opened on a
  checkpoint yields: its reads and the result of closing it), the XDR codec, and the
  batch size of write transactions. A cancelled context shows as the error
  \<open>ContextCanceled\<close> of the call it interrupts.
\<close>

record ('c, 'k, 'e, 't) collaborators =
  GetLedger :: "u32 \<Rightarrow> error + ('c, 'k, 'e, 't) LedgerCloseMeta"
  PrepareRange :: "u32 \<Rightarrow> error option"
  GetRootHAS :: "error + u32"
  NewCheckpointChangeReader :: "u32 \<Rightarrow> error + ('k, 'e) Change read list \<times> error option"
  xdrCodec :: "('k, 'e) xdr_codec"
  writeBatchSize :: int

text \<open>What the driver did, in order.\<close>

datatype driver_event =
    QueriedLatestSequence
  | ReadArchiveRoot
  | StartedFill u32
  | PreparedRange u32
  | JoinedFill
  | StartedIngest u32
  | NotifiedRetry error nat
  | Waited nat

text \<open>
  The stores that the service drives (\<open>serviceDB\<close> is the field \<open>db\<close> of the Go struct),
  and its journal.
\<close>

record ('c, 't) Service =
  serviceDB :: sqlDB
  eventStore :: "'c MemoryStore"
  transactionStore :: "'t TransactionStore"
  journal :: "driver_event list"

definition note_event :: "driver_event \<Rightarrow> ('c, 't) Service \<Rightarrow> ('c, 't) Service" where
  "note_event ev s = s\<lparr>journal := journal s @ [ev]\<rparr>"

subsection \<open>Write transactions of the driver\<close>

text \<open>
  Modelled from the spec: the package of \<open>db.ReadWriter\<close> and \<open>db.WriteTx\<close> is not among
  the sources. \<open>NewTx\<close> opens a write transaction with an updater; \<open>Commit(seq)\<close> "flushes
  remaining buffered operations, updates the LatestLedgerSequence metadata row to
  target_ledger_seq, commits the transaction, then runs wal_checkpoint(TRUNCATE) as a
  post-commit hook"; \<open>Rollback\<close> "discards the transaction and the buffer". These are the
  operations of the updater above, with the target sequence given at the commit.
\<close>

definition NewTx :: "int \<Rightarrow> sqlDB \<Rightarrow> (error + ledgerUpdaterTx) \<times> sqlDB" where
  "NewTx batchSize d = NewLedgerEntryUpdaterTx d 0 batchSize"

definition Commit :: "u32 \<Rightarrow> updater_state \<Rightarrow> error option \<times> updater_state" where
  "Commit sequence s = (case s of (l, d) \<Rightarrow> Done (l\<lparr>forLedgerSequence := sequence\<rparr>, d))"

definition Rollback :: "updater_state \<Rightarrow> updater_state" where
  "Rollback s = tx_Rollback s"

text \<open>
  Modelled from the spec: \<open>LedgerWriter().InsertLedger\<close> is not among the sources; it
  writes the ledger close record inside the write transaction.
\<close>

definition InsertLedger :: "('c, 'k, 'e, 't) LedgerCloseMeta \<Rightarrow> updater_state \<Rightarrow> error option \<times> updater_state" where
  "InsertLedger ledgerCloseMeta s = tx_Exec (InsertLedgerCloseMeta (LedgerSequence ledgerCloseMeta)) s"

text \<open>
  Modelled from the spec: \<open>ingestLedgerEntryChanges\<close> is not among the sources. "For
  each change: upsert (create/update) or delete on the entry store"; a read error or an
  error of the entry store ends the loop with that error, the end of the changes ends it
  without error.
\<close>

fun ingestLedgerEntryChanges ::
  "('k, 'e) xdr_codec \<Rightarrow> ('k, 'e) Change read list \<Rightarrow> updater_state \<Rightarrow> error option \<times> updater_state" where
  "ingestLedgerEntryChanges xdr [] s = (None, s)"
| "ingestLedgerEntryChanges xdr (ReadError err # rest) s = (Some err, s)"
| "ingestLedgerEntryChanges xdr (ReadOk (Upserted key entry) # rest) s =
     (case UpsertLedgerEntry xdr key entry s of
        (Some err, s') \<Rightarrow> (Some err, s')
      | (None, s') \<Rightarrow> ingestLedgerEntryChanges xdr rest s')"
| "ingestLedgerEntryChanges xdr (ReadOk (Removed key) # rest) s =
     (case DeleteLedgerEntry xdr key s of
        (Some err, s') \<Rightarrow> (Some err, s')
      | (None, s') \<Rightarrow> ingestLedgerEntryChanges xdr rest s')"

subsection \<open>Ingesting one ledger\<close>

text \<open>
  The state of \<open>ingest\<close> while its write transaction is open: the updater and the
  service. Results are \<open>None\<close> when a store panics.
\<close>

type_synonym ('c, 't) ingest_state = "ledgerUpdaterTx \<times> ('c, 't) Service"

definition on_db ::
  "(updater_state \<Rightarrow> error option \<times> updater_state) \<Rightarrow> ('c, 't) ingest_state
     \<Rightarrow> error option \<times> ('c, 't) ingest_state" where
  "on_db f s =
     (case s of (l, svc) \<Rightarrow>
        (case f (l, serviceDB svc) of (r, l', d') \<Rightarrow> (r, l', svc\<lparr>serviceDB := d'\<rparr>)))"

definition ingestLedgerCloseMeta ::
  "('c, 'k, 'e, 't) LedgerCloseMeta \<Rightarrow> ('c, 't) ingest_state
     \<Rightarrow> (error option \<times> ('c, 't) ingest_state) option" where
  "ingestLedgerCloseMeta ledgerCloseMeta s =
     (case on_db (InsertLedger ledgerCloseMeta) s of
        (Some err, s1) \<Rightarrow> Some (Some err, s1)
      | (None, l1, svc1) \<Rightarrow>
          (case IngestEvents (eventStore svc1) ledgerCloseMeta of
             None \<Rightarrow> None
           | Some (Some err, es) \<Rightarrow> Some (Some err, l1, svc1\<lparr>eventStore := es\<rparr>)
           | Some (None, es) \<Rightarrow>
               (case IngestTransactions (transactionStore svc1) ledgerCloseMeta of
                  None \<Rightarrow> None
                | Some (Some err, ts) \<Rightarrow>
                    Some (Some err, l1, svc1\<lparr>eventStore := es, transactionStore := ts\<rparr>)
                | Some (None, ts) \<Rightarrow>
                    Some (None, l1, svc1\<lparr>eventStore := es, transactionStore := ts\<rparr>))))"

text \<open>The part of \<open>ingest\<close> that runs with the write transaction open.\<close>

definition ingest_in_tx ::
  "('c, 'k, 'e, 't) collaborators \<Rightarrow> ('c, 'k, 'e, 't) LedgerCloseMeta \<Rightarrow> u32 \<Rightarrow> ('c, 't) ingest_state
     \<Rightarrow> (error option \<times> ('c, 't) ingest_state) option" where
  "ingest_in_tx env ledgerCloseMeta sequence s =
     (case on_db (ingestLedgerEntryChanges (xdrCodec env) (changeReads ledgerCloseMeta)) s of
        (Some err, s1) \<Rightarrow> Some (Some err, s1)
      | (None, s1) \<Rightarrow>
          (case changeReaderCloseError ledgerCloseMeta of
             Some err \<Rightarrow> Some (Some err, s1)
           | None \<Rightarrow>
               (case ingestLedgerCloseMeta ledgerCloseMeta s1 of
                  None \<Rightarrow> None
                | Some (Some err, s2) \<Rightarrow> Some (Some err, s2)
                | Some (None, s2) \<Rightarrow> Some (on_db (Commit sequence) s2))))"

text \<open>
  \<open>ingest\<close>: the deferred \<open>tx.Rollback()\<close> runs on every return once the transaction is
  open.
\<close>

definition ingest ::
  "('c, 'k, 'e, 't) collaborators \<Rightarrow> u32 \<Rightarrow> ('c, 't) Service \<Rightarrow> (error option \<times> ('c, 't) Service) option" where
  "ingest env sequence svc0 =
     (let svc = note_event (StartedIngest sequence) svc0 in
      case GetLedger env sequence of
        Inl err \<Rightarrow> Some (Some err, svc)
      | Inr ledgerCloseMeta \<Rightarrow>
          (case changeReaderError ledgerCloseMeta of
             Some err \<Rightarrow> Some (Some err, svc)
           | None \<Rightarrow>
               (case NewTx (writeBatchSize env) (serviceDB svc) of
                  (Inl err, d1) \<Rightarrow> Some (Some err, svc\<lparr>serviceDB := d1\<rparr>)
                | (Inr tx, d1) \<Rightarrow>
                    (case ingest_in_tx env ledgerCloseMeta sequence (tx, svc\<lparr>serviceDB := d1\<rparr>) of
                       None \<Rightarrow> None
                     | Some (r, l2, svc2) \<Rightarrow>
                         Some (r, svc2\<lparr>serviceDB := snd (Rollback (l2, serviceDB svc2))\<rparr>)))))"

subsection \<open>Bootstrap and streaming\<close>

definition fill_in_tx ::
  "('c, 'k, 'e, 't) collaborators \<Rightarrow> ('k, 'e) Change read list \<Rightarrow> error option \<Rightarrow> u32
     \<Rightarrow> ('c, 't) ingest_state \<Rightarrow> error option \<times> ('c, 't) ingest_state" where
  "fill_in_tx env reads closeError checkpointLedger s =
     (case on_db (ingestLedgerEntryChanges (xdrCodec env) reads) s of
        (Some err, s1) \<Rightarrow> (Some err, s1)
      | (None, s1) \<Rightarrow>
          (case closeError of
             Some err \<Rightarrow> (Some err, s1)
           | None \<Rightarrow> on_db (Commit checkpointLedger) s1))"

definition fillEntriesFromCheckpoint ::
  "('c, 'k, 'e, 't) collaborators \<Rightarrow> u32 \<Rightarrow> ('c, 't) Service \<Rightarrow> error option \<times> ('c, 't) Service" where
  "fillEntriesFromCheckpoint env checkpointLedger svc =
     (case NewCheckpointChangeReader env checkpointLedger of
        Inl err \<Rightarrow> (Some err, svc)
      | Inr (reads, closeError) \<Rightarrow>
          (case NewTx (writeBatchSize env) (serviceDB svc) of
             (Inl err, d1) \<Rightarrow> (Some err, svc\<lparr>serviceDB := d1\<rparr>)
           | (Inr tx, d1) \<Rightarrow>
               (case fill_in_tx env reads closeError checkpointLedger (tx, svc\<lparr>serviceDB := d1\<rparr>) of
                  (r, l2, svc2) \<Rightarrow> (r, svc2\<lparr>serviceDB := snd (Rollback (l2, serviceDB svc2))\<rparr>))))"

text \<open>
  What \<open>maybeFillEntriesFromCheckpoint\<close> leaves in the channel \<open>checkPointFillErr\<close>: nil
  at once, or the result of the task it has started on a checkpoint.
\<close>

datatype fill_task = NoFill | FillFrom u32

definition maybeFillEntriesFromCheckpoint ::
  "('c, 'k, 'e, 't) collaborators \<Rightarrow> ('c, 't) Service
     \<Rightarrow> (error + u32 \<times> fill_task) option \<times> ('c, 't) Service" where
  "maybeFillEntriesFromCheckpoint env svc0 =
     (let svc = note_event QueriedLatestSequence svc0 in
      case GetLatestLedgerSequence (serviceDB svc) of
        (None, d1) \<Rightarrow> (None, svc\<lparr>serviceDB := d1\<rparr>)
      | (Some (Inl err), d1) \<Rightarrow>
          if err = ErrEmptyDB then
            (let svc1 = note_event ReadArchiveRoot (svc\<lparr>serviceDB := d1\<rparr>) in
             case GetRootHAS env of
               Inl rootErr \<Rightarrow> (Some (Inl rootErr), svc1)
             | Inr checkpointLedger \<Rightarrow>
                 (Some (Inr (checkpointLedger + 1, FillFrom checkpointLedger)),
                  note_event (StartedFill checkpointLedger) svc1))
          else (Some (Inl err), svc\<lparr>serviceDB := d1\<rparr>)
      | (Some (Inr curLedgerSeq), d1) \<Rightarrow>
          (Some (Inr (curLedgerSeq + 1, NoFill)), svc\<lparr>serviceDB := d1\<rparr>))"

text \<open>
  How far \<open>run\<close> has come: its loop never ends by itself, so the model follows it for a
  given number of ledgers (\<open>Running\<close> with the next sequence when they are used up).
  \<open>StoppedFillRunning\<close>: \<open>run\<close> has returned an error while the fill task it started has
  not been joined. \<open>Crashed\<close>: a panic.
\<close>

datatype ('c, 't) progress =
    Running "('c, 't) Service" u32
  | Stopped error "('c, 't) Service"
  | StoppedFillRunning error "('c, 't) Service" u32
  | Crashed

fun stream ::
  "nat \<Rightarrow> ('c, 'k, 'e, 't) collaborators \<Rightarrow> u32 \<Rightarrow> ('c, 't) Service \<Rightarrow> ('c, 't) progress" where
  "stream 0 env nextLedgerSeq svc = Running svc nextLedgerSeq"
| "stream (Suc n) env nextLedgerSeq svc =
     (case ingest env nextLedgerSeq svc of
        None \<Rightarrow> Crashed
      | Some (Some err, svc') \<Rightarrow> Stopped err svc'
      | Some (None, svc') \<Rightarrow> stream n env (nextLedgerSeq + 1) svc')"

text \<open>
  \<open>run\<close>. The fill task runs in parallel with \<open>PrepareRange\<close>, which does not touch the
  stores; its effect is taken where \<open>run\<close> receives from the channel.
\<close>

definition run ::
  "nat \<Rightarrow> ('c, 'k, 'e, 't) collaborators \<Rightarrow> ('c, 't) Service \<Rightarrow> ('c, 't) progress" where
  "run n env svc =
     (case maybeFillEntriesFromCheckpoint env svc of
        (None, svc1) \<Rightarrow> Crashed
      | (Some (Inl err), svc1) \<Rightarrow> Stopped err svc1
      | (Some (Inr (nextLedgerSeq, task)), svc1) \<Rightarrow>
          (let svc2 = note_event (PreparedRange nextLedgerSeq) svc1 in
           case PrepareRange env nextLedgerSeq of
             Some err \<Rightarrow>
               (case task of
                  NoFill \<Rightarrow> Stopped err svc2
                | FillFrom checkpointLedger \<Rightarrow> StoppedFillRunning err svc2 checkpointLedger)
           | None \<Rightarrow>
               (case task of
                  NoFill \<Rightarrow> stream n env nextLedgerSeq (note_event JoinedFill svc2)
                | FillFrom checkpointLedger \<Rightarrow>
                    (case fillEntriesFromCheckpoint env checkpointLedger svc2 of
                       (Some err, svc3) \<Rightarrow> Stopped err (note_event JoinedFill svc3)
                     | (None, svc3) \<Rightarrow> stream n env nextLedgerSeq (note_event JoinedFill svc3)))))"

subsection \<open>Notions used to state the properties of the driver\<close>

text \<open>The calls on the updater that a list of changes amounts to.\<close>

definition change_calls :: "('k, 'e) Change read list \<Rightarrow> ('k, 'e) updater_call list" where
  "change_calls reads =
     concat (map (\<lambda>x. case x of
                    ReadOk (Upserted key entry) \<Rightarrow> [CallUpsert key entry]
                  | ReadOk (Removed key) \<Rightarrow> [CallDelete key]
                  | ReadError err \<Rightarrow> []) reads)"

text \<open>The reads of a change reader that are changes, not errors.\<close>

fun is_entry :: "'a read \<Rightarrow> bool" where
  "is_entry (ReadOk x) = True"
| "is_entry (ReadError err) = False"

text \<open>
  What ingesting a ledger can leave in the three stores. The event store and the
  transaction store have applied the ledger when they hold what their ingestion of it
  returns without error. The entry store has applied the ledger at a sequence when, in a
  transaction that has been committed, the ledger close record was written, every change
  of the ledger was read and every row of the committed table is what the last change on
  its key leaves (rows that no change touches are as before), and readers find the
  sequence as the latest.
\<close>

definition events_applied ::
  "('c, 'k, 'e, 't) LedgerCloseMeta \<Rightarrow> ('c, 't) Service \<Rightarrow> ('c, 't) Service \<Rightarrow> bool" where
  "events_applied ledgerCloseMeta svc svc' \<longleftrightarrow>
     IngestEvents (eventStore svc) ledgerCloseMeta = Some (None, eventStore svc')"

definition transactions_applied ::
  "('c, 'k, 'e, 't) LedgerCloseMeta \<Rightarrow> ('c, 't) Service \<Rightarrow> ('c, 't) Service \<Rightarrow> bool" where
  "transactions_applied ledgerCloseMeta svc svc' \<longleftrightarrow>
     IngestTransactions (transactionStore svc) ledgerCloseMeta = Some (None, transactionStore svc')"

definition entries_applied ::
  "('k, 'e) xdr_codec \<Rightarrow> ('c, 'k, 'e, 't) LedgerCloseMeta \<Rightarrow> u32
     \<Rightarrow> ('c, 't) Service \<Rightarrow> ('c, 't) Service \<Rightarrow> bool" where
  "entries_applied xdr ledgerCloseMeta sequence svc svc' \<longleftrightarrow>
     Committed \<in> set (new_events (serviceDB svc) (serviceDB svc'))
     \<and> Executed (InsertLedgerCloseMeta (LedgerSequence ledgerCloseMeta))
           \<in> set (new_events (serviceDB svc) (serviceDB svc'))
     \<and> list_all is_entry (changeReads ledgerCloseMeta)
     \<and> (\<forall>k. ledger_entries (committed (serviceDB svc')) k =
            (case last_on_row xdr k (change_calls (changeReads ledgerCloseMeta)) of
               None \<Rightarrow> ledger_entries (committed (serviceDB svc)) k
             | Some c \<Rightarrow> row_after xdr c))
     \<and> fst (GetLatestLedgerSequence (serviceDB svc'\<lparr>faults := []\<rparr>)) = Some (Inr sequence)"

text \<open>All three stores have applied the ledger that the backend has at the sequence.\<close>

definition all_applied ::
  "('c, 'k, 'e, 't) collaborators \<Rightarrow> u32 \<Rightarrow> ('c, 't) Service \<Rightarrow> ('c, 't) Service \<Rightarrow> bool" where
  "all_applied env sequence svc svc' \<longleftrightarrow>
     (case GetLedger env sequence of
        Inl err \<Rightarrow> False
      | Inr ledgerCloseMeta \<Rightarrow>
          events_applied ledgerCloseMeta svc svc'
          \<and> transactions_applied ledgerCloseMeta svc svc'
          \<and> entries_applied (xdrCodec env) ledgerCloseMeta sequence svc svc')"

text \<open>
  The steps of \<open>ingest\<close> that come before the event store return no error: the ledger
  is there, its change reader opens, the write transaction opens, the changes are all
  buffered or written, the reader closes, and the ledger close record is written.
\<close>

definition reaches_event_store ::
  "('c, 'k, 'e, 't) collaborators \<Rightarrow> u32 \<Rightarrow> ('c, 't) Service \<Rightarrow> bool" where
  "reaches_event_store env sequence svc \<longleftrightarrow>
     (case GetLedger env sequence of
        Inl err \<Rightarrow> False
      | Inr ledgerCloseMeta \<Rightarrow>
          changeReaderError ledgerCloseMeta = None
          \<and> (case NewTx (writeBatchSize env) (serviceDB svc) of
                (Inl err, d1) \<Rightarrow> False
              | (Inr tx, d1) \<Rightarrow>
                  (case ingestLedgerEntryChanges (xdrCodec env) (changeReads ledgerCloseMeta) (tx, d1) of
                     (Some err, s2) \<Rightarrow> False
                   | (None, s2) \<Rightarrow>
                       changeReaderCloseError ledgerCloseMeta = None
                       \<and> fst (InsertLedger ledgerCloseMeta s2) = None)))"

text \<open>The ledgers that a window holds, oldest first.\<close>

definition ledgers_held :: "'a LedgerBucketWindow \<Rightarrow> u32 list" where
  "ledgers_held w = map LedgerSeq (buckets w)"



text \<open>
  Examples: a database whose latest ledger sequence is 5; a service whose stores hold
  ledgers 3 to 5 and whose database, at sequence 5, fails at its fifth driver call, which
  for ledger 6 is the commit; the same service with a database that does not fail; a new
  service with an empty database and empty stores; a ledger backend that has ledger 6; a
  history archive whose latest checkpoint is ledger 5 and holds two entries.
\<close>

definition db_at5 :: sqlDB where
  "db_at5 =
     empty_db\<lparr>committed :=
       \<lparr>ledger_entries = Map.empty, metadata = [latestLedgerSequenceMetaKey \<mapsto> ''5'']\<rparr>\<rparr>"

definition tx_bucket :: "u32 \<Rightarrow> nat list LedgerBucket" where
  "tx_bucket l = \<lparr>LedgerSeq = l, LedgerCloseTimestamp = 1000 + uint l, BucketContent = [unat l]\<rparr>"

definition service345 :: "(nat, nat) Service" where
  "service345 =
     \<lparr>serviceDB = db_at5\<lparr>faults := [None, None, None, None, Some (ExternalError 9)]\<rparr>,
      eventStore = store345,
      transactionStore =
        \<lparr>transactionsByLedger = \<lparr>capacity = 3, buckets = [tx_bucket 3, tx_bucket 4, tx_bucket 5]\<rparr>\<rparr>,
      journal = []\<rparr>"

definition service345_sound :: "(nat, nat) Service" where
  "service345_sound = service345\<lparr>serviceDB := db_at5\<rparr>"


definition backend6 :: "(nat, string, string, nat) collaborators" where
  "backend6 =
     \<lparr>GetLedger = (\<lambda>l. if l = 6 then Inr meta6 else Inl ContextCanceled),
      PrepareRange = (\<lambda>l. None),
      GetRootHAS = Inr 5,
      NewCheckpointChangeReader =
        (\<lambda>l. Inr ([ReadOk (Upserted ''a'' ''1''), ReadOk (Upserted ''b'' ''2'')], None)),
      xdrCodec = string_codec,
      writeBatchSize = 150\<rparr>"

section \<open>Starting the service\<close>

subsection \<open>The retry loop of the backoff library\<close>

text \<open>
  \<open>NewService\<close> runs ingestion under \<open>backoff.RetryNotify\<close> of the library
  \<open>github.com/cenkalti/backoff/v4\<close>, which is outside the repository. What follows is
  the behaviour of the library's functions that \<open>NewService\<close> calls: the back-off
  policies \<open>NewConstantBackOff\<close>, \<open>WithMaxRetries\<close> and \<open>WithContext\<close> with their
  \<open>NextBackOff\<close>, and the loop of \<open>RetryNotify\<close>. Durations are in nanoseconds.
\<close>

definition Second :: nat where
  "Second = 1000000000"

datatype next_backoff = Stop | After nat

record ConstantBackOff =
  Interval :: nat

definition NewConstantBackOff :: "nat \<Rightarrow> ConstantBackOff" where
  "NewConstantBackOff d = \<lparr>Interval = d\<rparr>"

text \<open>\<open>WithMaxRetries\<close>: the wrapped policy, stopping after \<open>maxTries\<close> retries.\<close>

record backOffTries =
  delegate :: ConstantBackOff
  maxTries :: nat
  numTries :: nat

definition WithMaxRetries :: "ConstantBackOff \<Rightarrow> nat \<Rightarrow> backOffTries" where
  "WithMaxRetries b maxRetries = \<lparr>delegate = b, maxTries = maxRetries, numTries = 0\<rparr>"

definition Reset :: "backOffTries \<Rightarrow> backOffTries" where
  "Reset b = b\<lparr>numTries := 0\<rparr>"

definition NextBackOff_tries :: "backOffTries \<Rightarrow> next_backoff \<times> backOffTries" where
  "NextBackOff_tries b =
     (if maxTries b = 0 then (Stop, b)
      else if maxTries b \<le> numTries b then (Stop, b)
      else (After (Interval (delegate b)), b\<lparr>numTries := numTries b + 1\<rparr>))"

text \<open>
  The context, as the retry loop sees it. The loop looks at the context twice after
  each failed run: when it asks for the next back-off (look \<open>2 * k\<close> after run \<open>k\<close>), and
  then either when it stops or while it waits (look \<open>2 * k + 1\<close>). A context that is
  cancelled stays cancelled; \<open>cancelledFrom\<close> is the first look that finds it cancelled.
\<close>

record context_view =
  cancelledFrom :: "nat option"

definition ctx_done :: "context_view \<Rightarrow> nat \<Rightarrow> bool" where
  "ctx_done ctx look = (case cancelledFrom ctx of None \<Rightarrow> False | Some t \<Rightarrow> t \<le> look)"

text \<open>\<open>WithContext\<close>: stop when the context is done, else ask the wrapped policy.\<close>

definition NextBackOff_context ::
  "context_view \<Rightarrow> nat \<Rightarrow> backOffTries \<Rightarrow> next_backoff \<times> backOffTries" where
  "NextBackOff_context ctx look b = (if ctx_done ctx look then (Stop, b) else NextBackOff_tries b)"

text \<open>
  What one call of the operation gives: an error, no error, no return while it is
  followed, or a panic.
\<close>

datatype 's attempt = Failed error 's | Succeeded 's | Unfinished 's | Panic

datatype 's retried = Returned "error option" 's | Pending 's | Panicked

text \<open>
  \<open>RetryNotify\<close>, from its \<open>k\<close>-th call of the operation on: a run without error ends
  the loop; after a failed run the loop asks for the next back-off; on \<open>Stop\<close> it returns
  the error of the context if there is one, else the error of the run; otherwise it
  notifies, starts the timer and waits for the timer or for the context, whichever comes
  first, and returns the error of the context in the second case. (The operation of
  \<open>NewService\<close> never returns one of the library's permanent errors.)
\<close>

function RetryNotify ::
  "(nat \<Rightarrow> 's \<Rightarrow> 's attempt) \<Rightarrow> (error \<Rightarrow> nat \<Rightarrow> 's \<Rightarrow> 's) \<Rightarrow> (nat \<Rightarrow> 's \<Rightarrow> 's)
     \<Rightarrow> context_view \<Rightarrow> nat \<Rightarrow> backOffTries \<Rightarrow> 's \<Rightarrow> 's retried" where
  "RetryNotify operation notify wait ctx k b s =
     (case operation k s of
        Succeeded s1 \<Rightarrow> Returned None s1
      | Unfinished s1 \<Rightarrow> Pending s1
      | Panic \<Rightarrow> Panicked
      | Failed err s1 \<Rightarrow>
          (case NextBackOff_context ctx (2 * k) b of
             (Stop, b1) \<Rightarrow>
               if ctx_done ctx (2 * k + 1) then Returned (Some ContextCanceled) s1
               else Returned (Some err) s1
           | (After d, b1) \<Rightarrow>
               let s2 = notify err d s1 in
               if ctx_done ctx (2 * k + 1) then Returned (Some ContextCanceled) s2
               else RetryNotify operation notify wait ctx (k + 1) b1 (wait d s2)))"
  by pat_completeness auto
termination
  apply (relation "measure (\<lambda>(operation, notify, wait, ctx, k, b, s). maxTries b - numTries b)")
   apply simp
  apply (auto simp: NextBackOff_context_def NextBackOff_tries_def split: if_splits)
  done

declare RetryNotify.simps [simp del]

subsection \<open>\<open>NewService\<close>\<close>

text \<open>
  The world around the service while it runs: what the ledger backend, the archive and
  the other collaborators answer during the \<open>k\<close>-th run of ingestion, for how many
  ledgers that run is followed, the context that \<open>Close\<close> cancels, and whether a callback
  \<open>OnIngestionRetry\<close> is configured.
\<close>

record ('c, 'k, 'e, 't) world =
  collaboratorsAt :: "nat \<Rightarrow> ('c, 'k, 'e, 't) collaborators"
  ledgersFollowed :: "nat \<Rightarrow> nat"
  serviceContext :: context_view
  OnIngestionRetry :: bool

text \<open>
  One call of \<open>service.run\<close> as an operation of the retry loop. A run that returns while
  the fill task it started is not joined leaves that task behind; what the task does
  afterwards is not followed.
\<close>

definition run_operation ::
  "('c, 'k, 'e, 't) world \<Rightarrow> nat \<Rightarrow> ('c, 't) Service \<Rightarrow> ('c, 't) Service attempt" where
  "run_operation w k svc =
     (case run (ledgersFollowed w k) (collaboratorsAt w k) svc of
        Running svc1 nextLedgerSeq \<Rightarrow> Unfinished svc1
      | Stopped err svc1 \<Rightarrow> Failed err svc1
      | StoppedFillRunning err svc1 checkpointLedger \<Rightarrow> Failed err svc1
      | Crashed \<Rightarrow> Panic)"

text \<open>
  How the goroutine of \<open>NewService\<close> ends: ingestion still runs; the goroutine has
  returned; \<open>logger.Fatal\<close> has ended the process; a panic.
\<close>

datatype ('c, 't) ending =
    Ingesting "('c, 't) Service"
  | GoroutineEnded "error option" "('c, 't) Service"
  | ProcessExited error "('c, 't) Service"
  | ProcessPanicked

text \<open>\<open>errors.Is(err, context.Canceled)\<close>.\<close>

definition is_canceled :: "error \<Rightarrow> bool" where
  "is_canceled err \<longleftrightarrow> err = ContextCanceled"

definition fatal_unless_canceled :: "('c, 't) Service retried \<Rightarrow> ('c, 't) ending" where
  "fatal_unless_canceled r =
     (case r of
        Returned None svc \<Rightarrow> GoroutineEnded None svc
      | Returned (Some err) svc \<Rightarrow>
          if \<not> is_canceled err then ProcessExited err svc else GoroutineEnded (Some err) svc
      | Pending svc \<Rightarrow> Ingesting svc
      | Panicked \<Rightarrow> ProcessPanicked)"

text \<open>
  The callback \<open>cfg.OnIngestionRetry\<close>, when there is one, is told the error and the
  delay; it has no access to the stores. The timer of the loop lets the delay pass.
\<close>

definition notifyRetry ::
  "('c, 'k, 'e, 't) world \<Rightarrow> error \<Rightarrow> nat \<Rightarrow> ('c, 't) Service \<Rightarrow> ('c, 't) Service" where
  "notifyRetry w err d s = (if OnIngestionRetry w then note_event (NotifiedRetry err d) s else s)"

definition waitTimer :: "nat \<Rightarrow> ('c, 't) Service \<Rightarrow> ('c, 't) Service" where
  "waitTimer d s = note_event (Waited d) s"

text \<open>
  \<open>NewService\<close> with the retry loop (\<open>src/unnamed/part_001\<close>): the goroutine that it
  starts, on the service that it has built.
\<close>

definition NewService :: "('c, 'k, 'e, 't) world \<Rightarrow> ('c, 't) Service \<Rightarrow> ('c, 't) ending" where
  "NewService w svc =
     (let constantBackoff = WithMaxRetries (NewConstantBackOff (1 * Second)) 5 in
      fatal_unless_canceled
        (RetryNotify (run_operation w) (notifyRetry w) waitTimer
           (serviceContext w) 0 (Reset constantBackoff) svc))"

text \<open>
  The earlier \<open>NewService\<close> of \<open>internal/ingest/service.go\<close> has no retry loop: its
  goroutine calls \<open>run\<close> once and treats the error in the same way.
\<close>

definition NewService_without_retry ::
  "('c, 'k, 'e, 't) world \<Rightarrow> ('c, 't) Service \<Rightarrow> ('c, 't) ending" where
  "NewService_without_retry w svc =
     fatal_unless_canceled
       (case run_operation w 0 svc of
          Failed err svc1 \<Rightarrow> Returned (Some err) svc1
        | Succeeded svc1 \<Rightarrow> Returned None svc1
        | Unfinished svc1 \<Rightarrow> Pending svc1
        | Panic \<Rightarrow> Panicked)"

subsection \<open>Notions used to state the retry policy\<close>

text \<open>The service that an ending leaves.\<close>

fun ended_service :: "('c, 't) ending \<Rightarrow> ('c, 't) Service option" where
  "ended_service (Ingesting svc) = Some svc"
| "ended_service (GoroutineEnded r svc) = Some svc"
| "ended_service (ProcessExited err svc) = Some svc"
| "ended_service ProcessPanicked = None"

text \<open>
  The runs and the waits of a journal: each run of ingestion starts by querying the
  latest sequence.
\<close>

fun is_run_or_wait :: "driver_event \<Rightarrow> bool" where
  "is_run_or_wait QueriedLatestSequence = True"
| "is_run_or_wait (Waited d) = True"
| "is_run_or_wait ev = False"

definition runs_and_waits :: "driver_event list \<Rightarrow> driver_event list" where
  "runs_and_waits j = filter is_run_or_wait j"

text \<open>What the service has noted since a given state.\<close>

definition noted_since :: "('c, 't) Service \<Rightarrow> ('c, 't) Service \<Rightarrow> driver_event list" where
  "noted_since svc svc' = drop (length (journal svc)) (journal svc')"

text \<open>
  Examples: a ledger backend that cannot prepare a range; a world in which it never can
  and nobody closes the service; the same world when the service is closed during the
  second wait.
\<close>

definition backend_down :: "(nat, string, string, nat) collaborators" where
  "backend_down = backend6\<lparr>PrepareRange := (\<lambda>l. Some (ExternalError 3))\<rparr>"

definition world_down :: "(nat, string, string, nat) world" where
  "world_down =
     \<lparr>collaboratorsAt = (\<lambda>k. backend_down), ledgersFollowed = (\<lambda>k. 2),
      serviceContext = \<lparr>cancelledFrom = None\<rparr>, OnIngestionRetry = True\<rparr>"

definition world_closed :: "(nat, string, string, nat) world" where
  "world_closed = world_down\<lparr>serviceContext := \<lparr>cancelledFrom = Some 3\<rparr>\<rparr>"

section \<open>Properties of the event store\<close>

lemma unat_Len: "window_bounded w \<Longrightarrow> unat (Len w) = length (buckets w)"
proof -
  assume "window_bounded w"
  then have "length (buckets w) \<le> unat (capacity w)" by (simp add: window_bounded_def)
  moreover have "unat (capacity w) < 2 ^ LENGTH(32)" by (rule unsigned_less)
  ultimately have "length (buckets w) < 2 ^ LENGTH(32)" by simp
  then show ?thesis by (simp add: Len_def unat_of_nat)
qed

lemma Len_eq_0_iff: "window_bounded w \<Longrightarrow> Len w = 0 \<longleftrightarrow> buckets w = []"
  using unat_Len [of w] by (metis length_0_conv unat_eq_zero unat_0)

lemma Get_0: "window_bounded w \<Longrightarrow> buckets w \<noteq> [] \<Longrightarrow> Get w 0 = Some (hd (buckets w))"
  using Len_eq_0_iff [of w] by (simp add: Get_def word_gt_0 hd_conv_nth)

lemma validateRange_cascade:
  assumes "window_bounded (eventsByLedger m)"
  shows "validateRange m r =
    (if buckets (eventsByLedger m) = [] then Some (Inl (ErrorString ''event store is empty''))
     else if Cmp (Start r) (oldest m) < 0 \<and> \<not> ClampStart r
       then Some (Inl (ErrorString ''start is before oldest ledger''))
     else if Cmp (clamped_start m r) (newest_bound m) \<ge> 0
       then Some (Inl (ErrorString ''start is after newest ledger''))
     else if Cmp (End r) (newest_bound m) > 0 \<and> \<not> ClampEnd r
       then Some (Inl (ErrorString ''end is after latest ledger''))
     else if Cmp (clamped_start m r) (clamped_end m r) \<ge> 0
       then Some (Inl (ErrorString ''start is not before end''))
     else Some (Inr (r\<lparr>Start := clamped_start m r, End := clamped_end m r\<rparr>)))"
  using assms
  by (simp add: validateRange_def Len_eq_0_iff Get_0 oldest_def newest_bound_def
      clamped_start_def clamped_end_def Let_def CursorAtLedger_def)

lemma cmp_cases:
  "(a < b \<and> cmp a b = - 1) \<or> (a = b \<and> cmp a b = 0) \<or> (b < a \<and> cmp a b = 1)"
  by (auto simp: cmp_def)

lemma Cmp_cases:
  "(pos a < pos b \<and> Cmp a b = - 1) \<or> (pos a = pos b \<and> Cmp a b = 0) \<or> (pos b < pos a \<and> Cmp a b = 1)"
proof (cases "Ledger a = Ledger b")
  case False
  then show ?thesis
    using cmp_cases [of "Ledger a" "Ledger b"] by (auto simp: Cmp_def pos_def)
next
  case l: True
  show ?thesis
  proof (cases "Tx a = Tx b")
    case False
    then show ?thesis
      using l cmp_cases [of "Tx a" "Tx b"] by (auto simp: Cmp_def pos_def)
  next
    case t: True
    show ?thesis
    proof (cases "Op a = Op b")
      case False
      then show ?thesis
        using l t cmp_cases [of "Op a" "Op b"] by (auto simp: Cmp_def pos_def)
    next
      case True
      then show ?thesis
        using l t cmp_cases [of "Event a" "Event b"] by (auto simp: Cmp_def pos_def)
    qed
  qed
qed

lemma Cmp_less_iff: "Cmp a b < 0 \<longleftrightarrow> pos a < pos b"
  using Cmp_cases [of a b] by (elim disjE conjE) simp_all

lemma Cmp_le_iff: "Cmp a b \<le> 0 \<longleftrightarrow> pos a \<le> pos b"
  using Cmp_cases [of a b] by (elim disjE conjE) (simp_all add: not_le)

lemma Cmp_ge_iff: "0 \<le> Cmp a b \<longleftrightarrow> pos b \<le> pos a"
  using Cmp_cases [of a b] by (elim disjE conjE) (simp_all add: not_le)

lemma Cmp_greater_iff: "0 < Cmp a b \<longleftrightarrow> pos b < pos a"
  using Cmp_cases [of a b] by (elim disjE conjE) simp_all


lemmas Cmp_pos = Cmp_less_iff Cmp_le_iff Cmp_ge_iff Cmp_greater_iff

lemma pos_CursorAtLedger_le: "pos (CursorAtLedger l) \<le> pos c \<longleftrightarrow> l \<le> Ledger c"
  by (auto simp: pos_def CursorAtLedger_def)

lemma pos_less_CursorAtLedger: "pos c < pos (CursorAtLedger l) \<longleftrightarrow> Ledger c < l"
  by (auto simp: pos_def CursorAtLedger_def)

lemma Scan_error:
  "validateRange m r = Some (Inl e) \<Longrightarrow> Scan m r f s = Some (Inl e, s)"
  by (simp add: Scan_def)

text \<open>
  C3. Validation of a scan request, in the order in which \<open>Scan\<close> checks: with zero
  buckets the scan fails with "event store is empty"; a start below the earliest cursor
  is clamped to it when \<open>ClampStart\<close> is set and otherwise fails with "start is before
  oldest ledger"; a start at or beyond ledger latest+1 fails with "start is after newest
  ledger"; an end beyond the cursor at ledger latest+1 is clamped when \<open>ClampEnd\<close> is set
  and otherwise fails with "end is after latest ledger"; if then start \<ge> end the scan
  fails with "start is not before end". In every failure the visitor's state is the
  initial one: no visitor call was made.
\<close>

theorem C3_scan_range_validation:
  assumes "window_bounded (eventsByLedger m)"
  shows
    "(buckets (eventsByLedger m) = [] \<longrightarrow>
        Scan m r f s = Some (Inl (ErrorString ''event store is empty''), s))
   \<and> (buckets (eventsByLedger m) \<noteq> [] \<longrightarrow>
        (Cmp (Start r) (oldest m) < 0 \<and> ClampStart r \<longrightarrow>
           Scan m r f s = Scan m (r\<lparr>Start := oldest m\<rparr>) f s)
      \<and> (Cmp (Start r) (oldest m) < 0 \<and> \<not> ClampStart r \<longrightarrow>
           Scan m r f s = Some (Inl (ErrorString ''start is before oldest ledger''), s))
      \<and> (\<not> (Cmp (Start r) (oldest m) < 0 \<and> \<not> ClampStart r)
           \<and> Cmp (clamped_start m r) (newest_bound m) \<ge> 0 \<longrightarrow>
           Scan m r f s = Some (Inl (ErrorString ''start is after newest ledger''), s))
      \<and> (unat (LedgerSeq (hd (buckets (eventsByLedger m))))
             + length (buckets (eventsByLedger m)) < 2 ^ 32
           \<and> Cmp (Start r) (newest_bound m) \<ge> 0 \<longrightarrow>
           Scan m r f s = Some (Inl (ErrorString ''start is after newest ledger''), s))
      \<and> (\<not> (Cmp (Start r) (oldest m) < 0 \<and> \<not> ClampStart r)
           \<and> Cmp (clamped_start m r) (newest_bound m) < 0 \<longrightarrow>
             (Cmp (End r) (newest_bound m) > 0 \<and> ClampEnd r \<longrightarrow>
                Scan m r f s = Scan m (r\<lparr>End := newest_bound m\<rparr>) f s)
           \<and> (Cmp (End r) (newest_bound m) > 0 \<and> \<not> ClampEnd r \<longrightarrow>
                Scan m r f s = Some (Inl (ErrorString ''end is after latest ledger''), s))
           \<and> (\<not> (Cmp (End r) (newest_bound m) > 0 \<and> \<not> ClampEnd r)
                \<and> Cmp (clamped_start m r) (clamped_end m r) \<ge> 0 \<longrightarrow>
                Scan m r f s = Some (Inl (ErrorString ''start is not before end''), s))))
   \<and> (\<forall>e s'. Scan m r f s = Some (Inl e, s') \<longrightarrow> s' = s)"
proof -
  let ?w = "eventsByLedger m"
  note vr = validateRange_cascade [OF assms]
  have empty: "buckets ?w = [] \<Longrightarrow>
      Scan m r f s = Some (Inl (ErrorString ''event store is empty''), s)"
    by (rule Scan_error) (simp add: vr)
  have clampS: "Scan m r f s = Scan m (r\<lparr>Start := oldest m\<rparr>) f s"
    if "buckets ?w \<noteq> []" "Cmp (Start r) (oldest m) < 0" "ClampStart r"
  proof -
    have "validateRange m r = validateRange m (r\<lparr>Start := oldest m\<rparr>)"
      using that by (simp add: vr clamped_start_def clamped_end_def Cmp_pos)
    then show ?thesis by (simp add: Scan_def)
  qed
  have before: "Scan m r f s = Some (Inl (ErrorString ''start is before oldest ledger''), s)"
    if "buckets ?w \<noteq> []" "Cmp (Start r) (oldest m) < 0" "\<not> ClampStart r"
    by (rule Scan_error) (use that in \<open>simp add: vr\<close>)
  have after: "Scan m r f s = Some (Inl (ErrorString ''start is after newest ledger''), s)"
    if "buckets ?w \<noteq> []" "\<not> (Cmp (Start r) (oldest m) < 0 \<and> \<not> ClampStart r)"
       "Cmp (clamped_start m r) (newest_bound m) \<ge> 0"
    by (rule Scan_error) (use that in \<open>simp add: vr\<close>)
  have after': "Scan m r f s = Some (Inl (ErrorString ''start is after newest ledger''), s)"
    if ne: "buckets ?w \<noteq> []"
      and nowrap: "unat (LedgerSeq (hd (buckets ?w))) + length (buckets ?w) < 2 ^ 32"
      and ge: "Cmp (Start r) (newest_bound m) \<ge> 0"
  proof -
    have "unat (LedgerSeq (hd (buckets ?w))) + unat (Len ?w) < 2 ^ LENGTH(32)"
      using nowrap by (simp add: unat_Len [OF assms])
    then have "unat (LedgerSeq (hd (buckets ?w)) + Len ?w)
        = unat (LedgerSeq (hd (buckets ?w))) + unat (Len ?w)"
      by (simp add: unat_add_lem [THEN iffD1])
    then have "LedgerSeq (hd (buckets ?w)) \<le> LedgerSeq (hd (buckets ?w)) + Len ?w"
      by (simp add: word_le_nat_alt)
    then have "pos (oldest m) \<le> pos (newest_bound m)"
      by (simp add: oldest_def newest_bound_def pos_CursorAtLedger_le) (simp add: CursorAtLedger_def)
    with ge have "\<not> Cmp (Start r) (oldest m) < 0"
      by (simp add: Cmp_pos)
    with ne ge show ?thesis
      by (intro after) (simp_all add: clamped_start_def)
  qed
  have clampE: "Scan m r f s = Scan m (r\<lparr>End := newest_bound m\<rparr>) f s"
    if "buckets ?w \<noteq> []" "\<not> (Cmp (Start r) (oldest m) < 0 \<and> \<not> ClampStart r)"
       "Cmp (clamped_start m r) (newest_bound m) < 0"
       "Cmp (End r) (newest_bound m) > 0" "ClampEnd r"
  proof -
    have "validateRange m r = validateRange m (r\<lparr>End := newest_bound m\<rparr>)"
      using that by (simp add: vr clamped_start_def clamped_end_def Cmp_pos)
    then show ?thesis by (simp add: Scan_def)
  qed
  have endAfter: "Scan m r f s = Some (Inl (ErrorString ''end is after latest ledger''), s)"
    if "buckets ?w \<noteq> []" "\<not> (Cmp (Start r) (oldest m) < 0 \<and> \<not> ClampStart r)"
       "Cmp (clamped_start m r) (newest_bound m) < 0"
       "Cmp (End r) (newest_bound m) > 0" "\<not> ClampEnd r"
    by (rule Scan_error) (use that in \<open>simp add: vr\<close>)
  have notBefore: "Scan m r f s = Some (Inl (ErrorString ''start is not before end''), s)"
    if "buckets ?w \<noteq> []" "\<not> (Cmp (Start r) (oldest m) < 0 \<and> \<not> ClampStart r)"
       "Cmp (clamped_start m r) (newest_bound m) < 0"
       "\<not> (Cmp (End r) (newest_bound m) > 0 \<and> \<not> ClampEnd r)"
       "Cmp (clamped_start m r) (clamped_end m r) \<ge> 0"
    by (rule Scan_error) (use that in \<open>simp add: vr\<close>)
  have untouched: "s' = s" if "Scan m r f s = Some (Inl e, s')" for e s'
    using that by (auto simp: Scan_def Let_def split: option.splits sum.splits)
  show ?thesis
    using empty clampS before after after' clampE endAfter notBefore untouched
    by blast
qed


lemma store345_bounded: "window_bounded (eventsByLedger store345)"
  by (simp add: window_bounded_def store345_def)

lemma store345_nonempty: "buckets (eventsByLedger store345) \<noteq> []" by (simp add: store345_def)

lemma oldest_store345: "oldest store345 = CursorAtLedger 3"
  by (simp add: oldest_def store345_def one_event_bucket_def)
lemma newest_bound_store345: "newest_bound store345 = CursorAtLedger 6"
  by (simp add: newest_bound_def store345_def one_event_bucket_def Len_def)

theorem C3_scan_range_validation_witness:
  "Scan (NewMemoryStore ''unit-tests'' 3 :: nat MemoryStore) (ledger_range 1 True 6 False) collect []
     = Some (Inl (ErrorString ''event store is empty''), [])
   \<and> Scan store345 (ledger_range 2 False 6 False) collect []
     = Some (Inl (ErrorString ''start is before oldest ledger''), [])
   \<and> Scan store345 (ledger_range 2 True 6 False) collect []
     = Scan store345 (ledger_range 3 True 6 False) collect []
   \<and> Scan store345 (ledger_range 6 False 7 True) collect []
     = Some (Inl (ErrorString ''start is after newest ledger''), [])
   \<and> Scan store345 (ledger_range 3 False 7 False) collect []
     = Some (Inl (ErrorString ''end is after latest ledger''), [])
   \<and> Scan store345 (ledger_range 3 False 7 True) collect []
     = Scan store345 (ledger_range 3 False 6 True) collect []
   \<and> Scan store345 (ledger_range 4 False 4 False) collect []
     = Some (Inl (ErrorString ''start is not before end''), [])"
  using C3_scan_range_validation [of "NewMemoryStore ''unit-tests'' 3 :: nat MemoryStore" "ledger_range 1 True 6 False" collect "[]"]
    C3_scan_range_validation [OF store345_bounded, of "ledger_range 2 False 6 False" collect "[]"]
    C3_scan_range_validation [OF store345_bounded, of "ledger_range 2 True 6 False" collect "[]"]
    C3_scan_range_validation [OF store345_bounded, of "ledger_range 6 False 7 True" collect "[]"]
    C3_scan_range_validation [OF store345_bounded, of "ledger_range 3 False 7 False" collect "[]"]
    C3_scan_range_validation [OF store345_bounded, of "ledger_range 3 False 7 True" collect "[]"]
    C3_scan_range_validation [OF store345_bounded, of "ledger_range 4 False 4 False" collect "[]"]
  by (simp add: store345_nonempty oldest_store345 newest_bound_store345 window_bounded_def NewMemoryStore_def NewLedgerBucketWindow_def
      ledger_range_def clamped_start_def clamped_end_def Cmp_def cmp_def CursorAtLedger_def)


subsection \<open>The binary search of \<open>seek\<close>\<close>

lemma Search_loop_correct:
  assumes "\<And>a b. a \<le> b \<Longrightarrow> b < n \<Longrightarrow> p a \<Longrightarrow> p b"
    and "i \<le> j" and "j \<le> n"
    and "\<And>k. k < i \<Longrightarrow> \<not> p k"
    and "\<And>k. j \<le> k \<Longrightarrow> k < n \<Longrightarrow> p k"
  shows "Search_loop p i j \<le> n \<and> (\<forall>k < Search_loop p i j. \<not> p k)
     \<and> (\<forall>k. Search_loop p i j \<le> k \<and> k < n \<longrightarrow> p k)"
  using assms
proof (induction p i j rule: Search_loop.induct)
  case (1 f i j)
  show ?case
  proof (cases "i < j")
    case False
    then have "Search_loop f i j = i" by (subst Search_loop.simps) simp
    moreover from False "1.prems" have "i = j" by simp
    ultimately show ?thesis using "1.prems" by auto
  next
    case True
    let ?h = "(i + j) div 2"
    from True have h: "i \<le> ?h" "?h < j" by auto
    show ?thesis
    proof (cases "f ?h")
      case False
      have below: "\<not> f k" if "k < ?h + 1" for k
      proof
        assume "f k"
        moreover have "k \<le> ?h" using that by simp
        moreover have "?h < n" using h "1.prems" by simp
        ultimately have "f ?h" using "1.prems"(1) by blast
        with False show False by simp
      qed
      have "Search_loop f (?h + 1) j \<le> n \<and> (\<forall>k < Search_loop f (?h + 1) j. \<not> f k)
         \<and> (\<forall>k. Search_loop f (?h + 1) j \<le> k \<and> k < n \<longrightarrow> f k)"
      proof (rule "1.IH"(1) [OF True refl False])
        show "?h + 1 \<le> j" using h by simp
        show "j \<le> n" using "1.prems" by simp
        show "\<And>k. k < ?h + 1 \<Longrightarrow> \<not> f k" using below by blast
        show "\<And>k. j \<le> k \<Longrightarrow> k < n \<Longrightarrow> f k" using "1.prems" by blast
        show "\<And>a b. a \<le> b \<Longrightarrow> b < n \<Longrightarrow> f a \<Longrightarrow> f b" using "1.prems"(1) by blast
      qed
      moreover have "Search_loop f i j = Search_loop f (?h + 1) j"
        using True False by (subst Search_loop.simps) (simp add: Let_def)
      ultimately show ?thesis by simp
    next
      case fh: True
      have "Search_loop f i ?h \<le> n \<and> (\<forall>k < Search_loop f i ?h. \<not> f k)
         \<and> (\<forall>k. Search_loop f i ?h \<le> k \<and> k < n \<longrightarrow> f k)"
      proof (rule "1.IH"(2) [OF True refl])
        show "\<not> \<not> f ?h" using fh by simp
        show "i \<le> ?h" using h by simp
        show "?h \<le> n" using h "1.prems" by simp
        show "\<And>k. k < i \<Longrightarrow> \<not> f k" using "1.prems" by blast
        show "\<And>k. ?h \<le> k \<Longrightarrow> k < n \<Longrightarrow> f k" using "1.prems"(1) fh by blast
        show "\<And>a b. a \<le> b \<Longrightarrow> b < n \<Longrightarrow> f a \<Longrightarrow> f b" using "1.prems"(1) by blast
      qed
      moreover have "Search_loop f i j = Search_loop f i ?h"
        using True fh by (subst Search_loop.simps) (simp add: Let_def)
      ultimately show ?thesis by simp
    qed
  qed
qed

lemma drop_boundary_filter:
  assumes "j \<le> length xs" "\<forall>k<j. \<not> P (xs ! k)" "\<forall>k. j \<le> k \<and> k < length xs \<longrightarrow> P (xs ! k)"
  shows "drop j xs = filter P xs"
proof -
  have "filter P (take j xs) = []"
    using assms by (auto simp: filter_empty_conv in_set_conv_nth)
  moreover have "filter P (drop j xs) = drop j xs"
    using assms by (auto simp: filter_id_conv in_set_conv_nth)
  moreover have "filter P xs = filter P (take j xs) @ filter P (drop j xs)"
    by (subst (1) append_take_drop_id [of j xs, symmetric]) (simp only: filter_append)
  ultimately show ?thesis by simp
qed


lemma seek_filter:
  assumes "sorted_wrt (\<lambda>e e'. pos (cursor e (Ledger c)) < pos (cursor e' (Ledger c))) es"
  shows "seek es c = filter (\<lambda>e. Cmp c (cursor e (Ledger c)) \<le> 0) es"
proof -
  let ?p = "\<lambda>i. Cmp c (cursor (es ! i) (Ledger c)) \<le> 0"
  have mono: "?p b" if ab: "a \<le> b" and b: "b < length es" and pa: "?p a" for a b
  proof (cases "a = b")
    case True
    with pa show ?thesis by simp
  next
    case False
    with ab have "a < b" by simp
    with assms b have "pos (cursor (es ! a) (Ledger c)) < pos (cursor (es ! b) (Ledger c))"
      by (simp add: sorted_wrt_iff_nth_less)
    moreover from pa have "pos c \<le> pos (cursor (es ! a) (Ledger c))"
      by (simp only: Cmp_le_iff)
    ultimately have "pos c \<le> pos (cursor (es ! b) (Ledger c))"
      by (meson less_imp_le order_trans)
    then show ?thesis by (simp only: Cmp_le_iff)
  qed
  define j where "j = Search_loop ?p 0 (length es)"
  have "Search_loop ?p 0 (length es) \<le> length es
      \<and> (\<forall>k < Search_loop ?p 0 (length es). \<not> ?p k)
      \<and> (\<forall>k. Search_loop ?p 0 (length es) \<le> k \<and> k < length es \<longrightarrow> ?p k)"
  proof (rule Search_loop_correct)
    show "\<And>a b. a \<le> b \<Longrightarrow> b < length es \<Longrightarrow> ?p a \<Longrightarrow> ?p b" by (rule mono)
  qed simp_all
  then have j: "j \<le> length es" "\<forall>k<j. \<not> ?p k" "\<forall>k. j \<le> k \<and> k < length es \<longrightarrow> ?p k"
    unfolding j_def by blast+
  have "drop j es = filter (\<lambda>e. Cmp c (cursor e (Ledger c)) \<le> 0) es"
    using j by (rule drop_boundary_filter)
  then show ?thesis
    by (simp add: seek_def Search_def j_def)
qed


subsection \<open>What a scan visits\<close>

lemma visit_append:
  "visit f s (xs @ ys) =
     (case visit f s xs of (True, s') \<Rightarrow> visit f s' ys | (False, s') \<Rightarrow> (False, s'))"
  by (induction xs arbitrary: s) (auto split: prod.splits)

lemma scan_events_visit:
  assumes "sorted_wrt (\<lambda>e e'. pos (cursor e L) < pos (cursor e' L)) es"
  shows "scan_events rangeEnd f L ts es s =
     (case visit f s (map (\<lambda>e. (contents e, cursor e L, ts))
                        (filter (\<lambda>e. Cmp (cursor e L) rangeEnd < 0) es)) of
        (True, s') \<Rightarrow> (list_all (\<lambda>e. Cmp (cursor e L) rangeEnd < 0) es, s')
      | (False, s') \<Rightarrow> (False, s'))"
  using assms
proof (induction es arbitrary: s)
  case Nil
  show ?case by simp
next
  case (Cons e es)
  from Cons.prems have sorted_es: "sorted_wrt (\<lambda>e e'. pos (cursor e L) < pos (cursor e' L)) es"
    and above: "\<forall>e' \<in> set es. pos (cursor e L) < pos (cursor e' L)"
    by simp_all
  note IH = Cons.IH [OF sorted_es]
  show ?case
  proof (cases "Cmp rangeEnd (cursor e L) \<le> 0")
    case True
    then have e: "pos rangeEnd \<le> pos (cursor e L)" by (simp only: Cmp_le_iff)
    then have "\<not> Cmp (cursor e L) rangeEnd < 0" by (simp add: Cmp_less_iff not_less)
    moreover have "\<not> Cmp (cursor e' L) rangeEnd < 0" if "e' \<in> set es" for e'
    proof -
      from above that have "pos (cursor e L) < pos (cursor e' L)" by blast
      with e have "pos rangeEnd \<le> pos (cursor e' L)" by (meson less_imp_le order_trans)
      then show ?thesis by (simp add: Cmp_less_iff not_less)
    qed
    then have "filter (\<lambda>e. Cmp (cursor e L) rangeEnd < 0) es = []"
      by (simp add: filter_empty_conv)
    ultimately show ?thesis using True by simp
  next
    case False
    then have "Cmp (cursor e L) rangeEnd < 0"
      by (simp add: Cmp_less_iff Cmp_le_iff not_le)
    with False show ?thesis
      by (auto simp: IH split: prod.splits bool.splits)
  qed
qed

lemma bucket_sorted_pos:
  "bucket_sorted b \<Longrightarrow> sorted_wrt (\<lambda>e e'. pos (cursor e L) < pos (cursor e' L)) (BucketContent b)"
  unfolding bucket_sorted_def
  by (erule sorted_wrt_mono_rel [rotated]) (simp add: pos_def cursor_def)

lemma bucket_events:
  fixes b :: "'c event list LedgerBucket"
  assumes "bucket_sorted b" and "Ledger (Start r) \<le> LedgerSeq b"
  shows "(if LedgerSeq b = Ledger (Start r) then seek (BucketContent b) (Start r) else BucketContent b)
    = filter (\<lambda>e. Cmp (Start r) (cursor e (LedgerSeq b)) \<le> 0) (BucketContent b)"
proof (cases "LedgerSeq b = Ledger (Start r)")
  case True
  have "seek (BucketContent b) (Start r)
      = filter (\<lambda>e. Cmp (Start r) (cursor e (Ledger (Start r))) \<le> 0) (BucketContent b)"
    by (rule seek_filter) (rule bucket_sorted_pos [OF assms(1)])
  with True show ?thesis by simp
next
  case False
  with assms(2) have lt: "Ledger (Start r) < LedgerSeq b" by simp
  have "Cmp (Start r) (cursor e (LedgerSeq b)) \<le> 0" for e :: "'c event"
    using lt by (simp add: Cmp_le_iff pos_def cursor_def)
  with False show ?thesis by simp
qed

lemma calls_of_filter:
  "map (\<lambda>e. (contents e, cursor e (LedgerSeq b), LedgerCloseTimestamp b))
     (filter (\<lambda>e. Cmp (cursor e (LedgerSeq b)) (End r) < 0)
        (filter (\<lambda>e. Cmp (Start r) (cursor e (LedgerSeq b)) \<le> 0) (BucketContent b)))
   = filter (in_range r) (calls_of b)"
  by (simp add: calls_of_def filter_map comp_def in_range_def call_cursor_def conj_commute)

lemma bucket_step:
  assumes "bucket_sorted b" and "Ledger (Start r) \<le> LedgerSeq b"
  shows "scan_events (End r) f (LedgerSeq b) (LedgerCloseTimestamp b)
      (if LedgerSeq b = Ledger (Start r) then seek (BucketContent b) (Start r) else BucketContent b) s
    = (case visit f s (filter (in_range r) (calls_of b)) of
         (True, s') \<Rightarrow>
           (list_all (\<lambda>e. Cmp (cursor e (LedgerSeq b)) (End r) < 0)
              (filter (\<lambda>e. Cmp (Start r) (cursor e (LedgerSeq b)) \<le> 0) (BucketContent b)), s')
       | (False, s') \<Rightarrow> (False, s'))"
proof -
  have "sorted_wrt (\<lambda>e e'. pos (cursor e (LedgerSeq b)) < pos (cursor e' (LedgerSeq b)))
      (filter (\<lambda>e. Cmp (Start r) (cursor e (LedgerSeq b)) \<le> 0) (BucketContent b))"
    by (rule sorted_wrt_filter) (rule bucket_sorted_pos [OF assms(1)])
  then show ?thesis
    by (simp only: bucket_events [OF assms] scan_events_visit calls_of_filter)
qed

text \<open>An event at or beyond the end in one bucket puts every later bucket beyond the end.\<close>

lemma later_bucket_out:
  fixes b b' :: "'c event list LedgerBucket"
  assumes "\<not> list_all (\<lambda>e. Cmp (cursor e (LedgerSeq b)) (End r) < 0)
              (filter (\<lambda>e. Cmp (Start r) (cursor e (LedgerSeq b)) \<le> 0) (BucketContent b))"
    and "LedgerSeq b < LedgerSeq b'"
  shows "filter (in_range r) (calls_of b') = []"
proof -
  from assms(1) obtain e :: "'c event" where "\<not> Cmp (cursor e (LedgerSeq b)) (End r) < 0"
    by (auto simp: list_all_iff)
  then have "pos (End r) \<le> pos (cursor e (LedgerSeq b))"
    by (simp add: Cmp_less_iff not_less)
  then have "Ledger (End r) \<le> LedgerSeq b"
    by (auto simp: pos_def cursor_def)
  with assms(2) have "Ledger (End r) < LedgerSeq b'" by simp
  then have "\<not> Cmp (cursor e' (LedgerSeq b')) (End r) < 0" for e' :: "'c event"
    by (auto simp: Cmp_less_iff pos_def cursor_def)
  then show ?thesis
    by (simp add: filter_empty_conv calls_of_def in_range_def call_cursor_def)
qed

lemma later_buckets_out:
  fixes bs :: "'c event list LedgerBucket list"
  assumes "\<forall>b' \<in> set bs. filter (in_range r) (calls_of b') = []"
  shows "filter (in_range r) (concat (map calls_of bs)) = []"
  using assms by (induction bs) simp_all

lemma scan_buckets_visit:
  fixes w :: "'c event list LedgerBucketWindow"
  assumes wb: "window_bounded w"
    and sorted: "\<forall>b \<in> set (buckets w). bucket_sorted b"
    and incr: "\<forall>k k'. k < k' \<and> k' < length (buckets w)
                 \<longrightarrow> LedgerSeq (buckets w ! k) < LedgerSeq (buckets w ! k')"
    and n: "n = length (buckets w) - unat i"
    and i: "unat i \<le> length (buckets w)"
    and above: "\<forall>k. unat i \<le> k \<and> k < length (buckets w)
                 \<longrightarrow> Ledger (Start r) \<le> LedgerSeq (buckets w ! k)"
  shows "scan_buckets w r f (Ledger (Start r)) i s
    = Some (snd (visit f s (filter (in_range r) (concat (map calls_of (drop (unat i) (buckets w)))))))"
  using n i above
proof (induction n arbitrary: i s)
  case 0
  then have "unat i = length (buckets w)" by simp
  then have "\<not> i < Len w" by (simp add: word_less_nat_alt unat_Len [OF wb])
  then have "scan_buckets w r f (Ledger (Start r)) i s = Some s"
    by (subst scan_buckets.simps) simp
  with \<open>unat i = length (buckets w)\<close> show ?case by simp
next
  case (Suc n)
  let ?bs = "buckets w"
  let ?b = "?bs ! unat i"
  from Suc.prems have lt: "unat i < length ?bs" by simp
  then have iLen: "i < Len w" by (simp add: word_less_nat_alt unat_Len [OF wb])
  then have get: "Get w i = Some ?b" by (simp add: Get_def)
  have "unat (Len w) < 2 ^ LENGTH(32)" by (rule unsigned_less)
  then have "unat i + unat (1 :: u32) < 2 ^ LENGTH(32)"
    using lt unat_Len [OF wb] by simp
  then have suc: "unat (i + 1) = unat i + 1"
    by (simp add: unat_add_lem [THEN iffD1])
  have b_in: "?b \<in> set ?bs" using lt by simp
  then have b_sorted: "bucket_sorted ?b" using sorted by blast
  have b_above: "Ledger (Start r) \<le> LedgerSeq ?b" using Suc.prems lt by simp
  have drop: "drop (unat i) ?bs = ?b # drop (unat (i + 1)) ?bs"
    using lt suc by (simp add: Cons_nth_drop_Suc)
  let ?A = "filter (in_range r) (calls_of ?b)"
  let ?B = "filter (in_range r) (concat (map calls_of (drop (unat (i + 1)) ?bs)))"
  let ?all = "list_all (\<lambda>e. Cmp (cursor e (LedgerSeq ?b)) (End r) < 0)
      (filter (\<lambda>e. Cmp (Start r) (cursor e (LedgerSeq ?b)) \<le> 0) (BucketContent ?b))"
  have tot: "filter (in_range r) (concat (map calls_of (drop (unat i) ?bs))) = ?A @ ?B"
    by (simp add: drop)
  obtain ok s' where v: "visit f s ?A = (ok, s')" by (cases "visit f s ?A")
  have step: "scan_events (End r) f (LedgerSeq ?b) (LedgerCloseTimestamp ?b)
      (if LedgerSeq ?b = Ledger (Start r) then seek (BucketContent ?b) (Start r) else BucketContent ?b) s
      = (if ok then (?all, s') else (False, s'))"
    by (simp add: bucket_step [OF b_sorted b_above] v)
  have IH: "scan_buckets w r f (Ledger (Start r)) (i + 1) s' = Some (snd (visit f s' ?B))"
  proof (rule Suc.IH)
    show "n = length ?bs - unat (i + 1)" using Suc.prems suc by simp
    show "unat (i + 1) \<le> length ?bs" using lt suc by simp
    show "\<forall>k. unat (i + 1) \<le> k \<and> k < length ?bs \<longrightarrow> Ledger (Start r) \<le> LedgerSeq (?bs ! k)"
      using Suc.prems suc by simp
  qed
  show ?case
  proof (cases "ok \<and> ?all")
    case True
    then have "scan_buckets w r f (Ledger (Start r)) i s
        = scan_buckets w r f (Ledger (Start r)) (i + 1) s'"
      by (subst scan_buckets.simps) (simp add: iLen get step Let_def)
    moreover have "visit f s (?A @ ?B) = visit f s' ?B"
      using True by (simp add: visit_append v)
    ultimately show ?thesis by (simp only: IH tot)
  next
    case False
    then have res: "scan_buckets w r f (Ledger (Start r)) i s = Some s'"
      by (subst scan_buckets.simps) (auto simp add: iLen get step Let_def)
    have "snd (visit f s (?A @ ?B)) = s'"
    proof (cases ok)
      case False
      then show ?thesis by (simp add: visit_append v)
    next
      case True
      with \<open>\<not> (ok \<and> ?all)\<close> have nall: "\<not> ?all" by simp
      have "filter (in_range r) (calls_of b') = []"
        if "b' \<in> set (drop (unat (i + 1)) ?bs)" for b'
      proof -
        from that obtain k where k: "k < length ?bs - unat (i + 1)"
          and b': "b' = ?bs ! (unat (i + 1) + k)"
          by (auto simp: in_set_conv_nth)
        have "LedgerSeq ?b < LedgerSeq (?bs ! (unat (i + 1) + k))"
          using incr k suc by simp
        with nall show ?thesis unfolding b' by (rule later_bucket_out)
      qed
      then have "?B = []" by (intro later_buckets_out) blast
      with True show ?thesis by (simp add: visit_append v)
    qed
    with res show ?thesis by (simp only: tot)
  qed
qed

lemma contiguous_unat:
  assumes "contiguous bs" and "unat (LedgerSeq (hd bs)) + length bs \<le> 2 ^ 32"
    and "k < length bs"
  shows "unat (LedgerSeq (bs ! k)) = unat (LedgerSeq (hd bs)) + k"
  using assms(3)
proof (induction k)
  case 0
  then show ?case by (simp add: hd_conv_nth)
next
  case (Suc k)
  then have IH: "unat (LedgerSeq (bs ! k)) = unat (LedgerSeq (hd bs)) + k" by simp
  from Suc.prems assms(1) have "LedgerSeq (bs ! Suc k) = LedgerSeq (bs ! k) + 1"
    by (simp add: contiguous_def)
  moreover have "unat (LedgerSeq (bs ! k)) + unat (1 :: u32) < 2 ^ LENGTH(32)"
    using IH Suc.prems assms(2) by simp
  then have "unat (LedgerSeq (bs ! k) + 1) = unat (LedgerSeq (bs ! k)) + 1"
    by (simp add: unat_add_lem [THEN iffD1])
  ultimately show ?case using IH by simp
qed

lemma sorted_wrt_concat_map:
  assumes "\<forall>x \<in> set xs. sorted_wrt P (g x)"
    and "sorted_wrt (\<lambda>x y. \<forall>a \<in> set (g x). \<forall>b \<in> set (g y). P a b) xs"
  shows "sorted_wrt P (concat (map g xs))"
  using assms by (induction xs) (auto simp: sorted_wrt_append)

lemma calls_of_sorted:
  assumes "bucket_sorted b"
  shows "sorted_wrt (\<lambda>x y. Cmp (call_cursor x) (call_cursor y) < 0) (calls_of b)"
  using bucket_sorted_pos [OF assms, of "LedgerSeq b"]
  by (simp add: calls_of_def sorted_wrt_map call_cursor_def Cmp_less_iff)

lemma calls_of_cursor:
  "x \<in> set (calls_of b) \<Longrightarrow> Ledger (call_cursor x) = LedgerSeq b"
  by (auto simp: calls_of_def call_cursor_def cursor_def)

lemma stored_calls_sorted:
  fixes bs :: "'c event list LedgerBucket list"
  assumes "\<forall>b \<in> set bs. bucket_sorted b"
    and "\<forall>k k'. k < k' \<and> k' < length bs \<longrightarrow> LedgerSeq (bs ! k) < LedgerSeq (bs ! k')"
  shows "sorted_wrt (\<lambda>x y. Cmp (call_cursor x) (call_cursor y) < 0) (concat (map calls_of bs))"
proof (rule sorted_wrt_concat_map)
  show "\<forall>b \<in> set bs. sorted_wrt (\<lambda>x y. Cmp (call_cursor x) (call_cursor y) < 0) (calls_of b)"
    using assms(1) calls_of_sorted by blast
  show "sorted_wrt (\<lambda>b b'. \<forall>x \<in> set (calls_of b). \<forall>y \<in> set (calls_of b').
          Cmp (call_cursor x) (call_cursor y) < 0) bs"
    unfolding sorted_wrt_iff_nth_less
  proof (intro allI impI ballI)
    fix i j x y
    assume "i < j" "j < length bs" and x: "x \<in> set (calls_of (bs ! i))"
      and y: "y \<in> set (calls_of (bs ! j))"
    then have "LedgerSeq (bs ! i) < LedgerSeq (bs ! j)" using assms(2) by blast
    then have "Ledger (call_cursor x) < Ledger (call_cursor y)"
      using x y by (simp add: calls_of_cursor)
    then show "Cmp (call_cursor x) (call_cursor y) < 0"
      by (simp add: Cmp_less_iff pos_def)
  qed
qed

lemma earlier_buckets_out:
  fixes bs :: "'c event list LedgerBucket list"
  assumes "\<forall>b \<in> set bs. LedgerSeq b < Ledger (Start r)"
  shows "filter (in_range r) (concat (map calls_of bs)) = []"
proof (rule later_buckets_out, rule ballI)
  fix b assume "b \<in> set bs"
  with assms have lt: "LedgerSeq b < Ledger (Start r)" by blast
  have "\<not> in_range r x" if "x \<in> set (calls_of b)" for x
  proof -
    have "Ledger (call_cursor x) < Ledger (Start r)"
      using lt that by (simp add: calls_of_cursor)
    then have "pos (call_cursor x) < pos (Start r)" by (simp add: pos_def)
    then show ?thesis by (simp add: in_range_def Cmp_le_iff not_le)
  qed
  then show "filter (in_range r) (calls_of b) = []"
    by (simp add: filter_empty_conv)
qed

text \<open>What validation establishes about an accepted range.\<close>

lemma accepted_range:
  assumes wb: "window_bounded (eventsByLedger m)"
    and acc: "validateRange m r = Some (Inr r')"
  shows "buckets (eventsByLedger m) \<noteq> []"
    and "r' = r\<lparr>Start := clamped_start m r, End := clamped_end m r\<rparr>"
    and "pos (oldest m) \<le> pos (Start r')"
    and "pos (Start r') < pos (newest_bound m)"
    and "pos (End r') \<le> pos (newest_bound m)"
    and "pos (Start r) \<le> pos (Start r')"
    and "pos (End r') \<le> pos (End r)"
    and "pos (oldest m) \<le> pos (Start r) \<Longrightarrow> Start r' = Start r"
    and "pos (End r) \<le> pos (newest_bound m) \<Longrightarrow> End r' = End r"
proof -
  note vr = validateRange_cascade [OF wb, of r]
  show ne: "buckets (eventsByLedger m) \<noteq> []"
    using acc vr by (auto split: if_splits)
  show r': "r' = r\<lparr>Start := clamped_start m r, End := clamped_end m r\<rparr>"
    using acc vr by (auto split: if_splits)
  have lt: "\<not> 0 \<le> Cmp (clamped_start m r) (newest_bound m)"
    using acc vr by (auto split: if_splits)
  show "pos (oldest m) \<le> pos (Start r')"
    by (simp add: r' clamped_start_def Cmp_less_iff not_less)
  show "pos (Start r') < pos (newest_bound m)"
    using lt by (simp add: r' Cmp_ge_iff not_le)
  show "pos (End r') \<le> pos (newest_bound m)"
    by (simp add: r' clamped_end_def Cmp_greater_iff not_less)
  show "pos (Start r) \<le> pos (Start r')"
    by (auto simp: r' clamped_start_def Cmp_less_iff intro: less_imp_le)
  show "pos (End r') \<le> pos (End r)"
    by (auto simp: r' clamped_end_def Cmp_greater_iff intro: less_imp_le)
  show "pos (oldest m) \<le> pos (Start r) \<Longrightarrow> Start r' = Start r"
    by (simp add: r' clamped_start_def Cmp_less_iff not_less)
  show "pos (End r) \<le> pos (newest_bound m) \<Longrightarrow> End r' = End r"
    by (simp add: r' clamped_end_def Cmp_greater_iff not_less)
qed

text \<open>
  C2. On a non-empty store whose window satisfies its invariants, and for a range that
  validation accepts, \<open>Scan\<close> calls the visitor on exactly the stored events whose cursor
  lies in \<open>[Start, End)\<close>, in the stored order, until the visitor returns false; no event at
  or beyond \<open>End\<close> is visited; the cursors of these events are strictly ascending; and the
  scan returns \<open>earliest + len - 1\<close> as the latest ledger.
\<close>

theorem C2_scan_visits_range:
  fixes m :: "'c MemoryStore" and f :: "('c, 's) visitor"
  assumes inv: "window_invariants (eventsByLedger m)"
    and ne: "buckets (eventsByLedger m) \<noteq> []"
    and acc: "validateRange m r = Some (Inr r')"
  shows "Scan m r f s =
      Some (Inr (LedgerSeq (hd (buckets (eventsByLedger m))) + (Len (eventsByLedger m) - 1)),
            snd (visit f s (filter (in_range r) (stored_calls m))))
    \<and> sorted_wrt (\<lambda>x y. Cmp (call_cursor x) (call_cursor y) < 0)
         (filter (in_range r) (stored_calls m))"
proof -
  let ?w = "eventsByLedger m"
  let ?bs = "buckets ?w"
  let ?first = "LedgerSeq (hd ?bs)"
  let ?L0 = "Ledger (Start r')"
  let ?i0 = "?L0 - ?first"
  from inv have wb: "window_bounded ?w" and contig: "contiguous ?bs"
    and sorted: "\<forall>b \<in> set ?bs. bucket_sorted b"
    by (simp_all add: window_invariants_def)
  note a = accepted_range [OF wb acc]
  have len: "unat (Len ?w) = length ?bs" by (rule unat_Len [OF wb])
  \<comment> \<open>the start ledger lies in the window, so \<open>first + len\<close> does not wrap around\<close>
  have first_le: "?first \<le> ?L0"
    using a(3) by (simp add: oldest_def pos_CursorAtLedger_le)
  have L0_lt: "?L0 < ?first + Len ?w"
    using a(4) by (simp add: newest_bound_def pos_less_CursorAtLedger)
  from first_le L0_lt have "?first \<le> ?first + Len ?w" by simp
  then have nowrap: "unat ?first + length ?bs < 2 ^ 32"
    using len by (simp add: no_olen_add_nat)
  then have sum: "unat (?first + Len ?w) = unat ?first + length ?bs"
    using len by (simp add: unat_add_lem [THEN iffD1])
  have seq: "unat (LedgerSeq (?bs ! k)) = unat ?first + k" if "k < length ?bs" for k
    using contig _ that by (rule contiguous_unat) (use nowrap in simp)
  have incr: "\<forall>k k'. k < k' \<and> k' < length ?bs \<longrightarrow> LedgerSeq (?bs ! k) < LedgerSeq (?bs ! k')"
    by (simp add: word_less_nat_alt seq)
  \<comment> \<open>the index of the first bucket in the range\<close>
  have i0: "unat ?i0 = unat ?L0 - unat ?first"
    using first_le by (rule unat_sub)
  have L0: "unat ?first \<le> unat ?L0" "unat ?L0 < unat ?first + length ?bs"
    using first_le L0_lt sum by (simp_all add: word_le_nat_alt word_less_nat_alt)
  have i0_lt: "unat ?i0 \<le> length ?bs" using i0 L0 by simp
  have above: "\<forall>k. unat ?i0 \<le> k \<and> k < length ?bs \<longrightarrow> ?L0 \<le> LedgerSeq (?bs ! k)"
    using i0 L0 by (auto simp: word_le_nat_alt seq)
  have below: "\<forall>b \<in> set (take (unat ?i0) ?bs). LedgerSeq b < ?L0"
  proof
    fix b assume "b \<in> set (take (unat ?i0) ?bs)"
    then obtain k where k: "k < unat ?i0" "k < length ?bs" and b: "b = ?bs ! k"
      by (auto simp: in_set_conv_nth)
    show "LedgerSeq b < ?L0"
      unfolding b using k i0 L0 by (simp add: word_less_nat_alt seq)
  qed
  \<comment> \<open>the loop\<close>
  have loop: "scan_buckets ?w r' f ?L0 ?i0 s
      = Some (snd (visit f s (filter (in_range r') (concat (map calls_of (drop (unat ?i0) ?bs))))))"
    using wb sorted incr refl i0_lt above by (rule scan_buckets_visit)
  have "concat (map calls_of ?bs)
      = concat (map calls_of (take (unat ?i0) ?bs)) @ concat (map calls_of (drop (unat ?i0) ?bs))"
    by (simp only: concat_append [symmetric] map_append [symmetric] append_take_drop_id)
  then have split: "filter (in_range r') (stored_calls m)
      = filter (in_range r') (concat (map calls_of (drop (unat ?i0) ?bs)))"
    using earlier_buckets_out [OF below] by (simp add: stored_calls_def)
  \<comment> \<open>clamping does not change which stored events are in the range\<close>
  have same: "in_range r x \<longleftrightarrow> in_range r' x" if "x \<in> set (stored_calls m)" for x
  proof -
    from that obtain b where b: "b \<in> set ?bs" and x: "x \<in> set (calls_of b)"
      by (auto simp: stored_calls_def)
    from b obtain k where k: "k < length ?bs" and bk: "b = ?bs ! k"
      by (auto simp: in_set_conv_nth)
    have led: "Ledger (call_cursor x) = LedgerSeq (?bs ! k)"
      using x bk by (simp add: calls_of_cursor)
    have "?first \<le> Ledger (call_cursor x)"
      unfolding led by (simp add: word_le_nat_alt seq [OF k])
    then have lo: "pos (oldest m) \<le> pos (call_cursor x)"
      by (simp add: oldest_def pos_CursorAtLedger_le)
    have "Ledger (call_cursor x) < ?first + Len ?w"
      unfolding led using k by (simp add: word_less_nat_alt seq [OF k] sum)
    then have hi: "pos (call_cursor x) < pos (newest_bound m)"
      by (simp add: newest_bound_def pos_less_CursorAtLedger)
    have s: "pos (Start r) \<le> pos (call_cursor x) \<longleftrightarrow> pos (Start r') \<le> pos (call_cursor x)"
    proof (cases "pos (oldest m) \<le> pos (Start r)")
      case True
      then show ?thesis by (simp add: a(8))
    next
      case False
      then have lt: "pos (Start r) < pos (oldest m)" by (simp add: not_le)
      then have "Start r' = oldest m"
        by (simp add: a(2) clamped_start_def Cmp_less_iff)
      moreover from lt lo have "pos (Start r) \<le> pos (call_cursor x)"
        by (rule less_imp_le [OF less_le_trans])
      ultimately show ?thesis using lo by simp
    qed
    have e: "pos (call_cursor x) < pos (End r) \<longleftrightarrow> pos (call_cursor x) < pos (End r')"
    proof (cases "pos (End r) \<le> pos (newest_bound m)")
      case True
      then show ?thesis by (simp add: a(9))
    next
      case False
      then have lt: "pos (newest_bound m) < pos (End r)" by (simp add: not_le)
      then have "End r' = newest_bound m"
        by (simp add: a(2) clamped_end_def Cmp_greater_iff)
      moreover from hi lt have "pos (call_cursor x) < pos (End r)"
        by (rule less_trans)
      ultimately show ?thesis using hi by simp
    qed
    show ?thesis by (simp add: in_range_def Cmp_le_iff Cmp_less_iff s e)
  qed
  then have filt: "filter (in_range r) (stored_calls m) = filter (in_range r') (stored_calls m)"
    by (intro filter_cong refl) blast
  have "Scan m r f s = Some (Inr (?first + (Len ?w - 1)),
      snd (visit f s (filter (in_range r') (concat (map calls_of (drop (unat ?i0) ?bs))))))"
    by (simp add: Scan_def acc Get_0 [OF wb ne] loop Let_def)
  then have scan: "Scan m r f s = Some (Inr (?first + (Len ?w - 1)),
      snd (visit f s (filter (in_range r) (stored_calls m))))"
    by (simp only: filt split)
  have "sorted_wrt (\<lambda>x y. Cmp (call_cursor x) (call_cursor y) < 0) (stored_calls m)"
    unfolding stored_calls_def using sorted incr by (rule stored_calls_sorted)
  then have "sorted_wrt (\<lambda>x y. Cmp (call_cursor x) (call_cursor y) < 0)
      (filter (in_range r) (stored_calls m))"
    by (rule sorted_wrt_filter)
  with scan show ?thesis by (rule conjI)
qed


lemma store5_invariants: "window_invariants (eventsByLedger store5)"
  by (simp add: window_invariants_def window_bounded_def contiguous_def bucket_sorted_def store5_def)

lemma store5_accepts:
  "validateRange store5 (ledger_range 1 True 6 False) = Some (Inr (ledger_range 5 True 6 False))"
  by (simp add: validateRange_def store5_def ledger_range_def Len_def Get_def Cmp_def cmp_def
      CursorAtLedger_def)

lemma store345_invariants: "window_invariants (eventsByLedger store345)"
proof -
  have "contiguous (buckets (eventsByLedger store345))"
    by (simp add: contiguous_def store345_def one_event_bucket_def less_Suc_eq)
  moreover have "\<forall>b \<in> set (buckets (eventsByLedger store345)). bucket_sorted b"
    by (simp add: bucket_sorted_def store345_def one_event_bucket_def)
  ultimately show ?thesis
    using store345_bounded by (simp add: window_invariants_def)
qed

lemma store345_accepts:
  "validateRange store345 (ledger_range 4 False 9 True) = Some (Inr (ledger_range 4 False 6 True))"
  by (simp add: validateRange_def store345_def ledger_range_def Len_def Get_def Cmp_def cmp_def
      CursorAtLedger_def one_event_bucket_def)

theorem C2_scan_visits_range_witness:
  "Scan store5 (ledger_range 1 True 6 False) collect []
     = Some (Inr 5, [\<lparr>Ledger = 5, Tx = 1, Op = 0, Event = 0\<rparr>, \<lparr>Ledger = 5, Tx = 2, Op = 0, Event = 0\<rparr>])
   \<and> Scan store5 (ledger_range 1 True 6 False) collect_first []
     = Some (Inr 5, [\<lparr>Ledger = 5, Tx = 1, Op = 0, Event = 0\<rparr>])
   \<and> Scan store345 (ledger_range 4 False 9 True) collect []
     = Some (Inr 5, [\<lparr>Ledger = 4, Tx = 1, Op = 0, Event = 0\<rparr>, \<lparr>Ledger = 5, Tx = 1, Op = 0, Event = 0\<rparr>])"
proof (intro conjI)
  show "Scan store5 (ledger_range 1 True 6 False) collect []
     = Some (Inr 5, [\<lparr>Ledger = 5, Tx = 1, Op = 0, Event = 0\<rparr>, \<lparr>Ledger = 5, Tx = 2, Op = 0, Event = 0\<rparr>])"
    using C2_scan_visits_range [OF store5_invariants _ store5_accepts, of collect "[]"]
    by (simp add: store5_def stored_calls_def calls_of_def in_range_def call_cursor_def
        cursor_def ledger_range_def CursorAtLedger_def Cmp_def cmp_def collect_def Len_def)
  show "Scan store5 (ledger_range 1 True 6 False) collect_first []
     = Some (Inr 5, [\<lparr>Ledger = 5, Tx = 1, Op = 0, Event = 0\<rparr>])"
    using C2_scan_visits_range [OF store5_invariants _ store5_accepts, of collect_first "[]"]
    by (simp add: store5_def stored_calls_def calls_of_def in_range_def call_cursor_def
        cursor_def ledger_range_def CursorAtLedger_def Cmp_def cmp_def collect_first_def Len_def)
  show "Scan store345 (ledger_range 4 False 9 True) collect []
     = Some (Inr 5, [\<lparr>Ledger = 4, Tx = 1, Op = 0, Event = 0\<rparr>, \<lparr>Ledger = 5, Tx = 1, Op = 0, Event = 0\<rparr>])"
    using C2_scan_visits_range [OF store345_invariants _ store345_accepts, of collect "[]"]
    by (simp add: store345_def one_event_bucket_def stored_calls_def calls_of_def in_range_def
        call_cursor_def cursor_def ledger_range_def CursorAtLedger_def Cmp_def cmp_def
        collect_def Len_def)
qed


section \<open>Properties of event ingestion\<close>

lemma append_op_events_eq:
  "append_op_events txi opi j evs acc =
     acc @ map (\<lambda>(k, c). \<lparr>contents = c, txIndex = txi, opIndex = opi, eventIndex = of_nat k\<rparr>)
             (enumerate j evs)"
  by (induction evs arbitrary: j acc) simp_all

lemma read_operations_None_iff:
  "snd (read_operations txi i ops acc) = None
     \<longleftrightarrow> (\<forall>r \<in> set ops. case r of Inl err \<Rightarrow> False | Inr evs \<Rightarrow> True)"
  by (induction txi i ops acc rule: read_operations.induct) simp_all

lemma read_operations_events:
  "snd (read_operations txi i ops acc) = None \<Longrightarrow>
   fst (read_operations txi i ops acc) =
     acc @ concat (map (\<lambda>(i, r). case r of
                     Inl err \<Rightarrow> []
                   | Inr opEvents \<Rightarrow>
                       map (\<lambda>(j, c). \<lparr>contents = c, txIndex = txi,
                                      opIndex = of_nat i, eventIndex = of_nat j\<rparr>)
                         (enumerate 0 opEvents))
               (enumerate i ops))"
  by (induction txi i ops acc rule: read_operations.induct)
     (simp_all add: append_op_events_eq)

lemma read_transactions_None_iff:
  "snd (read_transactions reads acc) = None
     \<longleftrightarrow> (\<forall>x \<in> set reads. case x of
            ReadError err \<Rightarrow> False
          | ReadOk tx \<Rightarrow> Successful tx \<longrightarrow>
              (\<forall>r \<in> set (OperationEvents tx). case r of Inl err \<Rightarrow> False | Inr evs \<Rightarrow> True))"
proof (induction reads acc rule: read_transactions.induct)
  case (3 tx rest events)
  show ?case
  proof (cases "Successful tx")
    case False
    with 3 show ?thesis by simp
  next
    case True
    obtain events' err where ro: "read_operations (Index tx) 0 (OperationEvents tx) events = (events', err)"
      by (cases "read_operations (Index tx) 0 (OperationEvents tx) events")
    have err: "err = None \<longleftrightarrow> (\<forall>r \<in> set (OperationEvents tx). case r of Inl err \<Rightarrow> False | Inr evs \<Rightarrow> True)"
      using read_operations_None_iff [of "Index tx" 0 "OperationEvents tx" events] ro by simp
    show ?thesis
    proof (cases err)
      case None
      with True ro err 3(2) [OF _ ro [symmetric]] show ?thesis by simp
    next
      case (Some e)
      with True ro err show ?thesis by simp
    qed
  qed
qed simp_all

lemma read_transactions_events:
  "snd (read_transactions reads acc) = None \<Longrightarrow>
   fst (read_transactions reads acc) =
     acc @ concat (map transaction_events
       (filter Successful (concat (map (\<lambda>x. case x of ReadOk tx \<Rightarrow> [tx] | ReadError err \<Rightarrow> []) reads))))"
proof (induction reads acc rule: read_transactions.induct)
  case (3 tx rest events)
  show ?case
  proof (cases "Successful tx")
    case False
    with 3 show ?thesis by simp
  next
    case True
    obtain events' err where ro: "read_operations (Index tx) 0 (OperationEvents tx) events = (events', err)"
      by (cases "read_operations (Index tx) 0 (OperationEvents tx) events")
    from "3.prems" True ro have err: "err = None"
      by (cases err) simp_all
    then have ev: "events' = events @ transaction_events tx"
      using read_operations_events [of "Index tx" 0 "OperationEvents tx" events] ro
      by (simp add: transaction_events_def)
    from "3.prems" True ro err have "snd (read_transactions rest events') = None" by simp
    with 3(2) [OF _ ro [symmetric]] True err
    have "fst (read_transactions rest events') = events' @ concat (map transaction_events
       (filter Successful (concat (map (\<lambda>x. case x of ReadOk tx \<Rightarrow> [tx] | ReadError err \<Rightarrow> []) rest))))"
      by simp
    with True ro err ev show ?thesis by simp
  qed
qed simp_all

lemma readEvents_ok_iff:
  "snd (readEvents p meta) = None \<longleftrightarrow> parses meta"
proof (cases "txReaderError meta")
  case (Some e)
  then show ?thesis by (simp add: readEvents_def parses_def)
next
  case None
  obtain events err where rt: "read_transactions (txReads meta) [] = (events, err)"
    by (cases "read_transactions (txReads meta) []")
  have split: "(\<forall>x \<in> set reads. case x of
            ReadError err \<Rightarrow> False
          | ReadOk tx \<Rightarrow> Successful tx \<longrightarrow>
              (\<forall>r \<in> set (OperationEvents tx). case r of Inl err \<Rightarrow> False | Inr evs \<Rightarrow> True))
     \<longleftrightarrow> (\<forall>x \<in> set reads. case x of ReadError err \<Rightarrow> False | ReadOk tx \<Rightarrow> True)
       \<and> (\<forall>tx \<in> set (concat (map (\<lambda>x. case x of ReadOk tx \<Rightarrow> [tx] | ReadError err \<Rightarrow> []) reads)).
          Successful tx \<longrightarrow> (\<forall>r \<in> set (OperationEvents tx). case r of Inl err \<Rightarrow> False | Inr evs \<Rightarrow> True))"
    for reads :: "'a LedgerTransaction read list"
    by (induction reads) (auto split: read.splits)
  have "err = None \<longleftrightarrow> (\<forall>x \<in> set (txReads meta). case x of
            ReadError err \<Rightarrow> False
          | ReadOk tx \<Rightarrow> Successful tx \<longrightarrow>
              (\<forall>r \<in> set (OperationEvents tx). case r of Inl err \<Rightarrow> False | Inr evs \<Rightarrow> True))"
    using read_transactions_None_iff [of "txReads meta" "[]"] rt by simp
  then have key: "err = None \<longleftrightarrow>
      (\<forall>x \<in> set (txReads meta). case x of ReadError err \<Rightarrow> False | ReadOk tx \<Rightarrow> True)
       \<and> (\<forall>tx \<in> set (ledger_transactions meta).
          Successful tx \<longrightarrow> (\<forall>r \<in> set (OperationEvents tx). case r of Inl err \<Rightarrow> False | Inr evs \<Rightarrow> True))"
    unfolding ledger_transactions_def by (simp only: split)
  show ?thesis
  proof (cases err)
    case e: None
    with key None rt show ?thesis
      by (simp add: readEvents_def parses_def)
  next
    case e: (Some a)
    with key have "\<not> ((\<forall>x \<in> set (txReads meta). case x of ReadError err \<Rightarrow> False | ReadOk tx \<Rightarrow> True)
       \<and> (\<forall>tx \<in> set (ledger_transactions meta).
          Successful tx \<longrightarrow> (\<forall>r \<in> set (OperationEvents tx). case r of Inl err \<Rightarrow> False | Inr evs \<Rightarrow> True)))"
      by simp
    then have "\<not> parses meta" unfolding parses_def by blast
    with e None rt show ?thesis
      by (simp add: readEvents_def)
  qed
qed

lemma readEvents_events:
  assumes "parses meta"
  shows "readEvents p meta = (successful_events meta, None)"
proof -
  from assms have none: "snd (readEvents p meta) = None" by (simp add: readEvents_ok_iff)
  from assms have open_ok: "txReaderError meta = None" by (simp add: parses_def)
  obtain events err where rt: "read_transactions (txReads meta) [] = (events, err)"
    by (cases "read_transactions (txReads meta) []")
  from none open_ok rt have err: "err = None"
    by (cases err) (simp_all add: readEvents_def)
  then have "events = successful_events meta"
    using read_transactions_events [of "txReads meta" "[]"] rt
    by (simp add: successful_events_def ledger_transactions_def)
  with none open_ok rt err show ?thesis
    by (simp add: readEvents_def)
qed

lemma successful_events_origin:
  assumes "e \<in> set (successful_events meta)"
  shows "\<exists>tx \<in> set (ledger_transactions meta). Successful tx \<and> txIndex e = Index tx"
proof -
  from assms obtain tx where tx: "tx \<in> set (ledger_transactions meta)" "Successful tx"
    and e: "e \<in> set (transaction_events tx)"
    by (auto simp: successful_events_def)
  from e have "txIndex e = Index tx"
    by (auto simp: transaction_events_def split: sum.splits)
  with tx show ?thesis by blast
qed

text \<open>
  C9. When the ledger-close record parses, \<open>IngestEvents\<close> appends (after evicting the
  oldest bucket of a full window) one bucket for the ledger, holding exactly the events of
  its successful transactions, numbered by transaction, operation and event; every event
  of the bucket belongs to a successful transaction. When parsing fails, the store is
  unchanged and the error of \<open>readEvents\<close> is returned. (A ledger that does not follow the
  last one of the window makes the window panic.)
\<close>

theorem C9_ingest_events:
  fixes m :: "'c MemoryStore" and meta :: "('c, 'k, 'e, 't) LedgerCloseMeta"
  shows
    "(parses meta \<and> follows (eventsByLedger m) (LedgerSequence meta) \<longrightarrow>
        IngestEvents m meta =
          Some (None, m\<lparr>eventsByLedger := (eventsByLedger m)\<lparr>buckets :=
            (if Len (eventsByLedger m) = capacity (eventsByLedger m)
             then drop 1 (buckets (eventsByLedger m)) else buckets (eventsByLedger m))
            @ [\<lparr>LedgerSeq = LedgerSequence meta,
                 LedgerCloseTimestamp = sint (CloseTime meta),
                 BucketContent = successful_events meta\<rparr>]\<rparr>\<rparr>))
   \<and> (parses meta \<and> \<not> follows (eventsByLedger m) (LedgerSequence meta) \<longrightarrow>
        IngestEvents m meta = None)
   \<and> (\<not> parses meta \<longrightarrow>
        (\<exists>err. snd (readEvents (networkPassphrase m) meta) = Some err
           \<and> IngestEvents m meta = Some (Some err, m)))
   \<and> (\<forall>e \<in> set (successful_events meta).
        \<exists>tx \<in> set (ledger_transactions meta). Successful tx \<and> txIndex e = Index tx)"
proof (intro conjI impI ballI)
  assume "parses meta \<and> follows (eventsByLedger m) (LedgerSequence meta)"
  then show "IngestEvents m meta =
          Some (None, m\<lparr>eventsByLedger := (eventsByLedger m)\<lparr>buckets :=
            (if Len (eventsByLedger m) = capacity (eventsByLedger m)
             then drop 1 (buckets (eventsByLedger m)) else buckets (eventsByLedger m))
            @ [\<lparr>LedgerSeq = LedgerSequence meta,
                 LedgerCloseTimestamp = sint (CloseTime meta),
                 BucketContent = successful_events meta\<rparr>]\<rparr>\<rparr>)"
    by (auto simp: IngestEvents_def readEvents_events Append_def follows_def)
next
  assume "parses meta \<and> \<not> follows (eventsByLedger m) (LedgerSequence meta)"
  then show "IngestEvents m meta = None"
    by (simp add: IngestEvents_def readEvents_events Append_def follows_def)
next
  assume "\<not> parses meta"
  then have "snd (readEvents (networkPassphrase m) meta) \<noteq> None"
    by (simp add: readEvents_ok_iff)
  then obtain events err where "readEvents (networkPassphrase m) meta = (events, Some err)"
    by (cases "readEvents (networkPassphrase m) meta") auto
  then show "\<exists>err. snd (readEvents (networkPassphrase m) meta) = Some err
           \<and> IngestEvents m meta = Some (Some err, m)"
    by (simp add: IngestEvents_def)
next
  fix e assume "e \<in> set (successful_events meta)"
  then show "\<exists>tx \<in> set (ledger_transactions meta). Successful tx \<and> txIndex e = Index tx"
    by (rule successful_events_origin)
qed

lemma parses_meta6: "parses meta6"
  by (simp add: parses_def meta6_def ledger_transactions_def)

lemma not_parses_meta6_bad: "\<not> parses meta6_bad"
  by (simp add: parses_def meta6_bad_def meta6_def)

lemma successful_events_meta6:
  "successful_events meta6 =
     [\<lparr>contents = 11, txIndex = 1, opIndex = 0, eventIndex = 0\<rparr>,
      \<lparr>contents = 12, txIndex = 1, opIndex = 0, eventIndex = 1\<rparr>,
      \<lparr>contents = 13, txIndex = 1, opIndex = 1, eventIndex = 0\<rparr>,
      \<lparr>contents = 31, txIndex = 3, opIndex = 0, eventIndex = 0\<rparr>]"
  by (simp add: successful_events_def meta6_def ledger_transactions_def transaction_events_def)

theorem C9_ingest_events_witness:
  "IngestEvents store345 meta6 =
     Some (None, store345\<lparr>eventsByLedger := \<lparr>capacity = 3, buckets =
        [one_event_bucket 4, one_event_bucket 5,
         \<lparr>LedgerSeq = 6, LedgerCloseTimestamp = 1006,
          BucketContent =
            [\<lparr>contents = 11, txIndex = 1, opIndex = 0, eventIndex = 0\<rparr>,
             \<lparr>contents = 12, txIndex = 1, opIndex = 0, eventIndex = 1\<rparr>,
             \<lparr>contents = 13, txIndex = 1, opIndex = 1, eventIndex = 0\<rparr>,
             \<lparr>contents = 31, txIndex = 3, opIndex = 0, eventIndex = 0\<rparr>]\<rparr>]\<rparr>\<rparr>)
   \<and> IngestEvents store5 meta6 \<noteq> None
   \<and> IngestEvents store345 (meta6\<lparr>LedgerSequence := 8\<rparr>) = None
   \<and> IngestEvents store345 meta6_bad = Some (Some (ExternalError 7), store345)"
proof (intro conjI)
  show "IngestEvents store345 meta6 =
     Some (None, store345\<lparr>eventsByLedger := \<lparr>capacity = 3, buckets =
        [one_event_bucket 4, one_event_bucket 5,
         \<lparr>LedgerSeq = 6, LedgerCloseTimestamp = 1006,
          BucketContent =
            [\<lparr>contents = 11, txIndex = 1, opIndex = 0, eventIndex = 0\<rparr>,
             \<lparr>contents = 12, txIndex = 1, opIndex = 0, eventIndex = 1\<rparr>,
             \<lparr>contents = 13, txIndex = 1, opIndex = 1, eventIndex = 0\<rparr>,
             \<lparr>contents = 31, txIndex = 3, opIndex = 0, eventIndex = 0\<rparr>]\<rparr>]\<rparr>\<rparr>)"
    using C9_ingest_events [of meta6 store345] parses_meta6
    by (simp add: successful_events_meta6 follows_def)
       (simp add: store345_def one_event_bucket_def Len_def meta6_def)
  show "IngestEvents store5 meta6 \<noteq> None"
    using C9_ingest_events [of meta6 store5] parses_meta6
    by (simp add: follows_def) (simp add: store5_def meta6_def)
  show "IngestEvents store345 (meta6\<lparr>LedgerSequence := 8\<rparr>) = None"
    using C9_ingest_events [of "meta6\<lparr>LedgerSequence := 8\<rparr>" store345] parses_meta6
    by (simp add: follows_def parses_def ledger_transactions_def)
       (simp add: store345_def one_event_bucket_def)
  show "IngestEvents store345 meta6_bad = Some (Some (ExternalError 7), store345)"
    using C9_ingest_events [of meta6_bad store345] not_parses_meta6_bad
    by (auto simp: readEvents_def meta6_bad_def meta6_def)
qed


section \<open>Properties of the entry store\<close>

subsection \<open>Decimal text\<close>

lemma digit_value_digit_char: "d < 10 \<Longrightarrow> digit_value (digit_char d) = Some d"
  by (simp add: digit_value_def digit_char_def Let_def)

lemma parse_digits_append:
  "parse_digits acc (xs @ ys) =
     (case parse_digits acc xs of None \<Rightarrow> None | Some a \<Rightarrow> parse_digits a ys)"
  by (induction xs arbitrary: acc) (simp_all split: option.splits)

lemma parse_digits_FormatUint:
  "parse_digits acc (FormatUint n) = Some (acc * 10 ^ length (FormatUint n) + n)"
proof (induction n arbitrary: acc rule: FormatUint.induct)
  case (1 n)
  show ?case
  proof (cases "n < 10")
    case True
    then show ?thesis
      by (subst (1 2) FormatUint.simps) (simp add: digit_value_digit_char)
  next
    case False
    have "n mod 10 < 10" by simp
    then have d: "digit_value (digit_char (n mod 10)) = Some (n mod 10)"
      by (rule digit_value_digit_char)
    have f: "FormatUint n = FormatUint (n div 10) @ [digit_char (n mod 10)]"
      using False by (subst FormatUint.simps) simp
    show ?thesis
      by (simp add: f parse_digits_append "1.IH" [OF False] d algebra_simps)
  qed
qed

lemma FormatUint_nonempty: "FormatUint n \<noteq> []"
  by (subst FormatUint.simps) simp

lemma ParseUint32_FormatUint: "ParseUint32 (FormatUint (unat (w :: u32))) = Inr w"
proof -
  have "unat w < 2 ^ LENGTH(32)" by (rule unsigned_less)
  then show ?thesis
    by (simp add: ParseUint32_def FormatUint_nonempty parse_digits_FormatUint)
qed

subsection \<open>The primitives of the write transaction\<close>

lemma driver_call_same:
  assumes "driver_call db = (r, db1)"
  shows "committed db1 = committed db" and "trace db1 = trace db"
    and "hasPostWriteCommitHook db1 = hasPostWriteCommitHook db"
  using assms by (auto simp: driver_call_def split: list.splits)

lemma log_event_fields [simp]:
  "committed (log_event ev db) = committed db"
  "trace (log_event ev db) = trace db @ [ev]"
  "hasPostWriteCommitHook (log_event ev db) = hasPostWriteCommitHook db"
  "faults (log_event ev db) = faults db"
  by (simp_all add: log_event_def)

lemma tx_Exec_ok:
  assumes "tx_Exec st (l, db) = (None, l', db')"
  shows "txOpen l" and "l' = l\<lparr>txTables := apply_statement st (txTables l)\<rparr>"
    and "trace db' = trace db @ [Executed st]" and "committed db' = committed db"
    and "hasPostWriteCommitHook db' = hasPostWriteCommitHook db"
  using assms
  by (auto simp: tx_Exec_def split: if_splits prod.splits option.splits dest: driver_call_same)

lemma tx_Exec_committed:
  assumes "tx_Exec st (l, db) = (r, l', db')"
  shows "committed db' = committed db" and "txOpen l' = txOpen l"
    and "keyToEntryBatch l' = keyToEntryBatch l" and "forLedgerSequence l' = forLedgerSequence l"
    and "maxBatchSize l' = maxBatchSize l" and "postWriteCommitHook l' = postWriteCommitHook l"
  using assms
  by (auto simp: tx_Exec_def split: if_splits prod.splits option.splits dest: driver_call_same)

lemma flush_ok:
  assumes "flushLedgerEntryBatch (l, db) = (None, l', db')"
  shows "trace db' = trace db @ map Executed (flush_statements (keyToEntryBatch l))"
    and "committed db' = committed db"
    and "txTables l' = fold apply_statement (flush_statements (keyToEntryBatch l)) (txTables l)"
    and "txOpen l' = txOpen l" and "keyToEntryBatch l' = keyToEntryBatch l"
    and "forLedgerSequence l' = forLedgerSequence l" and "maxBatchSize l' = maxBatchSize l"
    and "postWriteCommitHook l' = postWriteCommitHook l"
proof -
  let ?ups = "batch_upserts (keyToEntryBatch l)"
  let ?dels = "batch_deletes (keyToEntryBatch l)"
  obtain e1 l1 db1 where s1: "(if length ?ups > 0 then tx_Exec (ReplaceLedgerEntries ?ups) (l, db)
       else (None, l, db)) = (e1, l1, db1)"
    by (metis prod_cases3)
  from assms s1 have e1: "e1 = None"
    by (cases e1) (simp_all add: flushLedgerEntryBatch_def Let_def)
  from assms s1 e1 have s2: "(if length ?dels > 0 then tx_Exec (DeleteLedgerEntries ?dels) (l1, db1)
       else (None, l1, db1)) = (None, l', db')"
    by (simp add: flushLedgerEntryBatch_def Let_def)
  have step1: "trace db1 = trace db @ map Executed (if ?ups \<noteq> [] then [ReplaceLedgerEntries ?ups] else [])
      \<and> committed db1 = committed db
      \<and> txTables l1 = fold apply_statement (if ?ups \<noteq> [] then [ReplaceLedgerEntries ?ups] else []) (txTables l)
      \<and> txOpen l1 = txOpen l \<and> keyToEntryBatch l1 = keyToEntryBatch l
      \<and> forLedgerSequence l1 = forLedgerSequence l \<and> maxBatchSize l1 = maxBatchSize l
      \<and> postWriteCommitHook l1 = postWriteCommitHook l"
  proof (cases "?ups = []")
    case True
    with s1 show ?thesis by simp
  next
    case False
    with s1 e1 have "tx_Exec (ReplaceLedgerEntries ?ups) (l, db) = (None, l1, db1)" by simp
    from tx_Exec_ok [OF this] False show ?thesis by simp
  qed
  have step2: "trace db' = trace db1 @ map Executed (if ?dels \<noteq> [] then [DeleteLedgerEntries ?dels] else [])
      \<and> committed db' = committed db1
      \<and> txTables l' = fold apply_statement (if ?dels \<noteq> [] then [DeleteLedgerEntries ?dels] else []) (txTables l1)
      \<and> txOpen l' = txOpen l1 \<and> keyToEntryBatch l' = keyToEntryBatch l1
      \<and> forLedgerSequence l' = forLedgerSequence l1 \<and> maxBatchSize l' = maxBatchSize l1
      \<and> postWriteCommitHook l' = postWriteCommitHook l1"
  proof (cases "?dels = []")
    case True
    with s2 show ?thesis by simp
  next
    case False
    with s2 have "tx_Exec (DeleteLedgerEntries ?dels) (l1, db1) = (None, l', db')" by simp
    from tx_Exec_ok [OF this] False show ?thesis by simp
  qed
  from step1 step2 show "trace db' = trace db @ map Executed (flush_statements (keyToEntryBatch l))"
    by (simp add: flush_statements_def)
  from step1 step2 show "committed db' = committed db" by simp
  from step1 step2 show "txTables l' = fold apply_statement (flush_statements (keyToEntryBatch l)) (txTables l)"
    by (simp add: flush_statements_def)
  from step1 step2 show "txOpen l' = txOpen l" "keyToEntryBatch l' = keyToEntryBatch l"
    "forLedgerSequence l' = forLedgerSequence l" "maxBatchSize l' = maxBatchSize l"
    "postWriteCommitHook l' = postWriteCommitHook l"
    by simp_all
qed

lemma nothing_committed_refl [simp]: "nothing_committed db db"
  by (simp add: nothing_committed_def)

lemma nothing_committed_trans:
  "nothing_committed db db1 \<Longrightarrow> nothing_committed db1 db2 \<Longrightarrow> nothing_committed db db2"
  by (auto simp: nothing_committed_def)

lemma nothing_committed_new_events:
  "nothing_committed db db' \<Longrightarrow> Committed \<notin> set (new_events db db')"
  by (auto simp: nothing_committed_def new_events_def)

lemma tx_Exec_quiet:
  assumes "tx_Exec st (l, db) = (r, l', db')"
  shows "nothing_committed db db'"
  using assms
  by (auto simp: tx_Exec_def nothing_committed_def
      split: if_splits prod.splits option.splits dest: driver_call_same)

lemma tx_Rollback_quiet:
  assumes "tx_Rollback (l, db) = (l', db')"
  shows "nothing_committed db db'" and "\<not> txOpen l'"
  using assms by (auto simp: tx_Rollback_def nothing_committed_def split: if_splits)

lemma flush_quiet:
  assumes "flushLedgerEntryBatch (l, db) = (r, l', db')"
  shows "nothing_committed db db'"
proof -
  let ?ups = "batch_upserts (keyToEntryBatch l)"
  let ?dels = "batch_deletes (keyToEntryBatch l)"
  obtain e1 l1 db1 where s1: "(if length ?ups > 0 then tx_Exec (ReplaceLedgerEntries ?ups) (l, db)
       else (None, l, db)) = (e1, l1, db1)"
    by (metis prod_cases3)
  then have q1: "nothing_committed db db1"
    by (auto split: if_splits dest: tx_Exec_quiet)
  show ?thesis
  proof (cases e1)
    case (Some e)
    with assms s1 have "db' = db1" by (simp add: flushLedgerEntryBatch_def Let_def)
    with q1 show ?thesis by simp
  next
    case None
    with assms s1 have "(if length ?dels > 0 then tx_Exec (DeleteLedgerEntries ?dels) (l1, db1)
       else (None, l1, db1)) = (r, l', db')"
      by (simp add: flushLedgerEntryBatch_def Let_def)
    then have "nothing_committed db1 db'"
      by (auto split: if_splits dest: tx_Exec_quiet)
    with q1 show ?thesis by (rule nothing_committed_trans)
  qed
qed

lemma done_inner_quiet:
  assumes "done_inner (l, db) = (r, l', db')"
  shows "nothing_committed db db'"
proof -
  obtain e1 l1 db1 where f: "flushLedgerEntryBatch (l, db) = (e1, l1, db1)"
    by (metis prod_cases3)
  then have q1: "nothing_committed db db1" by (rule flush_quiet)
  show ?thesis
  proof (cases e1)
    case (Some e)
    with assms f have "db' = db1" by (simp add: done_inner_def)
    with q1 show ?thesis by simp
  next
    case None
    with assms f have "upsertLatestLedgerSequence (forLedgerSequence l1) (l1, db1) = (r, l', db')"
      by (simp add: done_inner_def)
    then have "nothing_committed db1 db'"
      unfolding upsertLatestLedgerSequence_def by (rule tx_Exec_quiet)
    with q1 show ?thesis by (rule nothing_committed_trans)
  qed
qed

lemma done_inner_ok:
  assumes "done_inner (l, db) = (None, l', db')"
  shows "trace db' = trace db @ map Executed (flush_statements (keyToEntryBatch l))
           @ [Executed (ReplaceMetadata latestLedgerSequenceMetaKey (FormatUint (unat (forLedgerSequence l))))]"
    and "metadata (txTables l') latestLedgerSequenceMetaKey = Some (FormatUint (unat (forLedgerSequence l)))"
    and "ledger_entries (txTables l')
          = ledger_entries (fold apply_statement (flush_statements (keyToEntryBatch l)) (txTables l))"
    and "txOpen l'" and "postWriteCommitHook l' = postWriteCommitHook l"
    and "committed db' = committed db"
proof -
  obtain e1 l1 db1 where f: "flushLedgerEntryBatch (l, db) = (e1, l1, db1)"
    by (metis prod_cases3)
  with assms have e1: "e1 = None" by (cases e1) (simp_all add: done_inner_def)
  note fl = flush_ok [OF f [unfolded e1]]
  from assms f e1 have u: "tx_Exec (ReplaceMetadata latestLedgerSequenceMetaKey
      (FormatUint (unat (forLedgerSequence l)))) (l1, db1) = (None, l', db')"
    by (simp add: done_inner_def upsertLatestLedgerSequence_def fl)
  note ex = tx_Exec_ok [OF u]
  show "trace db' = trace db @ map Executed (flush_statements (keyToEntryBatch l))
           @ [Executed (ReplaceMetadata latestLedgerSequenceMetaKey (FormatUint (unat (forLedgerSequence l))))]"
    by (simp add: ex fl)
  show "metadata (txTables l') latestLedgerSequenceMetaKey = Some (FormatUint (unat (forLedgerSequence l)))"
    by (simp add: ex)
  show "ledger_entries (txTables l')
          = ledger_entries (fold apply_statement (flush_statements (keyToEntryBatch l)) (txTables l))"
    by (simp add: ex fl)
  show "txOpen l'" using ex(1) by (simp add: ex(2))
  show "postWriteCommitHook l' = postWriteCommitHook l" by (simp add: ex fl)
  show "committed db' = committed db" by (simp add: ex fl)
qed

lemma GetLatestLedgerSequence_found:
  assumes "metadata (committed db) latestLedgerSequenceMetaKey = Some (FormatUint (unat seq))"
    and "faults db = []"
  shows "fst (GetLatestLedgerSequence db) = Some (Inr seq)"
  using assms
  by (simp add: GetLatestLedgerSequence_def getLatestLedgerSequence_def driver_call_def
      select_by_key_def ParseUint32_FormatUint)

text \<open>
  C4. A \<open>Done\<close> that returns no error has, in this order, flushed the remaining batch (at
  most one multi-row upsert and one multi-row delete), set the \<open>LatestLedgerSequence\<close> row
  to the decimal text of the updater's ledger sequence, committed the transaction and run
  the checkpoint hook (when one is installed). Whenever \<open>Done\<close> has committed, also when the
  hook then fails, reading the latest ledger sequence returns that sequence.
\<close>

theorem C4_done_commits_sequence:
  assumes "Done (l, db) = (res, l', db')"
  shows "(res = None \<longrightarrow>
            trace db' = trace db
              @ map Executed (flush_statements (keyToEntryBatch l))
              @ [Executed (ReplaceMetadata latestLedgerSequenceMetaKey
                            (FormatUint (unat (forLedgerSequence l)))),
                 Committed]
              @ (if postWriteCommitHook l then [Checkpointed] else [])
          \<and> fst (GetLatestLedgerSequence (db'\<lparr>faults := []\<rparr>)) = Some (Inr (forLedgerSequence l)))
       \<and> (Committed \<in> set (new_events db db') \<longrightarrow>
            fst (GetLatestLedgerSequence (db'\<lparr>faults := []\<rparr>)) = Some (Inr (forLedgerSequence l)))"
proof -
  obtain e1 l1 db1 where di: "done_inner (l, db) = (e1, l1, db1)"
    by (metis prod_cases3)
  show ?thesis
  proof (cases e1)
    case (Some e)
    with assms di have "res = Some e" and rb: "tx_Rollback (l1, db1) = (l', db')"
      by (simp_all add: Done_def)
    moreover have "nothing_committed db db'"
      using done_inner_quiet [OF di] tx_Rollback_quiet(1) [OF rb]
      by (rule nothing_committed_trans)
    ultimately show ?thesis by (simp add: nothing_committed_new_events)
  next
    case None
    note ok = done_inner_ok [OF di [unfolded None]]
    obtain e2 l2 db2 where c: "tx_Commit (l1, db1) = (e2, l2, db2)"
      by (metis prod_cases3)
    show ?thesis
    proof (cases e2)
      case (Some e)
      with assms di None c have "res = Some e" and "db' = db2"
        by (simp_all add: Done_def)
      moreover from c Some ok have "nothing_committed db1 db2"
        by (auto simp: tx_Commit_def nothing_committed_def
            split: prod.splits option.splits dest: driver_call_same)
      then have "nothing_committed db db2"
        using done_inner_quiet [OF di] nothing_committed_trans by blast
      ultimately show ?thesis by (simp add: nothing_committed_new_events)
    next
      case e2: None
      from c e2 ok have c2: "committed db2 = txTables l1" "trace db2 = trace db1 @ [Committed]"
        "postWriteCommitHook l2 = postWriteCommitHook l"
        by (auto simp: tx_Commit_def split: prod.splits option.splits dest: driver_call_same)
      have hook: "committed db' = committed db2
          \<and> (res = None \<longrightarrow> trace db' = trace db2 @ (if postWriteCommitHook l then [Checkpointed] else []))"
        using assms di None c e2 c2(3)
        by (auto simp: Done_def run_postWriteCommitHook_def
            split: if_splits prod.splits option.splits dest: driver_call_same)
      have "metadata (committed (db'\<lparr>faults := []\<rparr>)) latestLedgerSequenceMetaKey
          = Some (FormatUint (unat (forLedgerSequence l)))"
        using hook c2 ok by simp
      then have "fst (GetLatestLedgerSequence (db'\<lparr>faults := []\<rparr>)) = Some (Inr (forLedgerSequence l))"
        by (rule GetLatestLedgerSequence_found) simp
      with hook c2 ok show ?thesis by simp
    qed
  qed
qed

lemma FormatUint_10: "FormatUint 10 = ''10''"
proof -
  have "char_of (49 :: nat) = CHR ''1''" "char_of (48 :: nat) = CHR ''0''"
    by code_simp+
  then show ?thesis
    by (simp add: FormatUint.simps digit_char_def)
qed

lemma Done_updater10:
  "Done (updater10, empty_db) =
     (None, updater10\<lparr>txOpen := False,
              txTables := \<lparr>ledger_entries = [''k1'' \<mapsto> ''e1''],
                           metadata = [''LatestLedgerSequence'' \<mapsto> ''10'']\<rparr>\<rparr>,
      \<lparr>committed = \<lparr>ledger_entries = [''k1'' \<mapsto> ''e1''],
                     metadata = [''LatestLedgerSequence'' \<mapsto> ''10'']\<rparr>,
       faults = [],
       trace = [Executed (ReplaceLedgerEntries [(''k1'', ''e1'')]),
                Executed (DeleteLedgerEntries [''k2'']),
                Executed (ReplaceMetadata ''LatestLedgerSequence'' ''10''),
                Committed, Checkpointed],
       hasPostWriteCommitHook = True\<rparr>)"
  by (simp add: Done_def done_inner_def flushLedgerEntryBatch_def tx_Exec_def tx_Commit_def
      run_postWriteCommitHook_def upsertLatestLedgerSequence_def driver_call_def log_event_def
      updater10_def empty_db_def latestLedgerSequenceMetaKey_def FormatUint_10 Let_def)

theorem C4_done_commits_sequence_witness:
  "fst (Done (updater10, empty_db)) = None
   \<and> trace (snd (snd (Done (updater10, empty_db)))) =
       [Executed (ReplaceLedgerEntries [(''k1'', ''e1'')]),
        Executed (DeleteLedgerEntries [''k2'']),
        Executed (ReplaceMetadata ''LatestLedgerSequence'' ''10''),
        Committed, Checkpointed]
   \<and> fst (GetLatestLedgerSequence (snd (snd (Done (updater10, empty_db))))) = Some (Inr 10)"
  using C4_done_commits_sequence [OF Done_updater10]
  by (simp add: Done_updater10 new_events_def)
     (simp add: empty_db_def updater10_def flush_statements_def latestLedgerSequenceMetaKey_def
        FormatUint_10)


subsection \<open>A flush writes what the batch holds\<close>

lemma replace_rows_apply:
  "distinct (map fst rows) \<Longrightarrow>
   replace_rows rows t k = (case map_of rows k of Some v \<Rightarrow> Some v | None \<Rightarrow> t k)"
proof (induction rows arbitrary: t)
  case Nil
  show ?case by simp
next
  case (Cons r rows)
  obtain a v where r: "r = (a, v)" by (cases r)
  from Cons.prems r have d: "distinct (map fst rows)" and a: "a \<notin> fst ` set rows" by simp_all
  from a have "map_of rows a = None" by (simp add: map_of_eq_None_iff)
  then show ?case by (simp add: r Cons.IH [OF d] split: option.splits)
qed

lemma delete_rows_apply: "delete_rows ks t k = (if k \<in> set ks then None else t k)"
  by (induction ks arbitrary: t) simp_all

lemma batch_upserts_keys: "fst ` set (batch_upserts batch) \<subseteq> fst ` set batch"
  by (induction batch rule: batch_upserts.induct) auto

lemma batch_upserts_distinct:
  "distinct (map fst batch) \<Longrightarrow> distinct (map fst (batch_upserts batch))"
  using batch_upserts_keys by (induction batch rule: batch_upserts.induct) auto

lemma map_of_batch_upserts:
  "distinct (map fst batch) \<Longrightarrow>
   map_of (batch_upserts batch) k = (case map_of batch k of Some (Some e) \<Rightarrow> Some e | _ \<Rightarrow> None)"
proof (induction batch rule: batch_upserts.induct)
  case 1
  show ?case by simp
next
  case (2 key entry rest)
  then show ?case by simp
next
  case (3 key rest)
  from 3 have "key \<notin> fst ` set rest" by simp
  then have "map_of rest key = None" by (simp add: map_of_eq_None_iff)
  with 3 show ?case by simp
qed

lemma in_batch_deletes:
  "distinct (map fst batch) \<Longrightarrow> k \<in> set (batch_deletes batch) \<longleftrightarrow> map_of batch k = Some None"
proof (induction batch rule: batch_deletes.induct)
  case 1
  show ?case by simp
next
  case (2 key entry rest)
  have "k \<in> set (batch_deletes rest) \<Longrightarrow> k \<in> fst ` set rest" for k
    by (induction rest rule: batch_deletes.induct) auto
  with 2 show ?case by auto
next
  case (3 key rest)
  then show ?case by auto
qed

lemma flush_statements_apply:
  assumes "distinct (map fst batch)"
  shows "ledger_entries (fold apply_statement (flush_statements batch) t) k
    = (case map_of batch k of Some entry \<Rightarrow> entry | None \<Rightarrow> ledger_entries t k)"
proof -
  have "ledger_entries (fold apply_statement (flush_statements batch) t)
      = delete_rows (batch_deletes batch) (replace_rows (batch_upserts batch) (ledger_entries t))"
    by (simp add: flush_statements_def)
  then show ?thesis
    by (simp add: delete_rows_apply in_batch_deletes [OF assms]
        replace_rows_apply [OF batch_upserts_distinct [OF assms]] map_of_batch_upserts [OF assms]
        split: option.splits)
qed

subsection \<open>Buffered operations\<close>

lemma tx_view_put:
  "tx_view (fst (put_batch k v (l, db))) = (tx_view l)(k := v)"
  by (auto simp: tx_view_def put_batch_def AList.update_conv' fun_eq_iff split: option.splits)

lemma put_batch_fields:
  "distinct (map fst (keyToEntryBatch l)) \<Longrightarrow> distinct (map fst (keyToEntryBatch (fst (put_batch k v (l, db)))))"
  "snd (put_batch k v (l, db)) = db"
  "txOpen (fst (put_batch k v (l, db))) = txOpen l"
  "forLedgerSequence (fst (put_batch k v (l, db))) = forLedgerSequence l"
  "maxBatchSize (fst (put_batch k v (l, db))) = maxBatchSize l"
  "postWriteCommitHook (fst (put_batch k v (l, db))) = postWriteCommitHook l"
  by (simp_all add: put_batch_def AList.distinct_update)

text \<open>What a buffered operation that succeeds leaves, whether or not it flushed.\<close>

lemma buffered_step:
  assumes d: "distinct (map fst (keyToEntryBatch l1))"
    and step: "(if flushes then
                  (case flushLedgerEntryBatch (l1, db1) of
                     (Some err, s2) \<Rightarrow> (Some err, s2)
                   | (None, s2) \<Rightarrow> (None, reset_batch s2))
                else (None, l1, db1)) = (None, l', db')"
  shows "tx_view l' = tx_view l1" and "distinct (map fst (keyToEntryBatch l'))"
    and "committed db' = committed db1" and "txOpen l' = txOpen l1"
    and "forLedgerSequence l' = forLedgerSequence l1" and "maxBatchSize l' = maxBatchSize l1"
    and "postWriteCommitHook l' = postWriteCommitHook l1"
    and "hasPostWriteCommitHook db' = hasPostWriteCommitHook db1"
proof -
  have "tx_view l' = tx_view l1 \<and> distinct (map fst (keyToEntryBatch l'))
      \<and> committed db' = committed db1 \<and> txOpen l' = txOpen l1
      \<and> forLedgerSequence l' = forLedgerSequence l1 \<and> maxBatchSize l' = maxBatchSize l1
      \<and> postWriteCommitHook l' = postWriteCommitHook l1
      \<and> hasPostWriteCommitHook db' = hasPostWriteCommitHook db1"
  proof (cases flushes)
    case False
    with step d show ?thesis by simp
  next
    case True
    obtain e2 l2 db2 where f: "flushLedgerEntryBatch (l1, db1) = (e2, l2, db2)"
      by (metis prod_cases3)
    with step True have e2: "e2 = None" and r: "reset_batch (l2, db2) = (l', db')"
      by (cases e2; simp)+
    note fl = flush_ok [OF f [unfolded e2]]
    from r have l': "l' = l2\<lparr>keyToEntryBatch := []\<rparr>" and db': "db' = db2"
      by (simp_all add: reset_batch_def)
    have "tx_view l' k = tx_view l1 k" for k
      by (simp add: tx_view_def l' fl(3) flush_statements_apply [OF d])
    then have "tx_view l' = tx_view l1" by (simp add: fun_eq_iff)
    moreover have "hasPostWriteCommitHook db2 = hasPostWriteCommitHook db1"
      using flush_quiet [OF f] by (simp add: nothing_committed_def)
    ultimately show ?thesis by (simp add: l' db' fl)
  qed
  then show "tx_view l' = tx_view l1" and "distinct (map fst (keyToEntryBatch l'))"
    and "committed db' = committed db1" and "txOpen l' = txOpen l1"
    and "forLedgerSequence l' = forLedgerSequence l1" and "maxBatchSize l' = maxBatchSize l1"
    and "postWriteCommitHook l' = postWriteCommitHook l1"
    and "hasPostWriteCommitHook db' = hasPostWriteCommitHook db1"
    by simp_all
qed

lemma upsert_ok:
  assumes d: "distinct (map fst (keyToEntryBatch l))"
    and ok: "UpsertLedgerEntry xdr key entry (l, db) = (None, l', db')"
  shows "\<exists>k e. encodeLedgerKey xdr key = Inr k \<and> MarshalLedgerEntry xdr entry = Inr e
           \<and> tx_view l' = (tx_view l)(k \<mapsto> e)"
    and "distinct (map fst (keyToEntryBatch l'))"
    and "committed db' = committed db" and "txOpen l' = txOpen l"
    and "forLedgerSequence l' = forLedgerSequence l" and "maxBatchSize l' = maxBatchSize l"
    and "postWriteCommitHook l' = postWriteCommitHook l"
proof -
  from ok have u: "upsertLedgerEntry xdr key entry (l, db) = (None, l', db')"
    by (auto simp: UpsertLedgerEntry_def split: prod.splits option.splits)
  then obtain k where k: "encodeLedgerKey xdr key = Inr k"
    by (cases "encodeLedgerKey xdr key") (simp_all add: upsertLedgerEntry_def)
  with u obtain e where e: "MarshalLedgerEntry xdr entry = Inr e"
    by (cases "MarshalLedgerEntry xdr entry") (simp_all add: upsertLedgerEntry_def)
  obtain l1 db1 where p: "put_batch k (Some e) (l, db) = (l1, db1)"
    by (cases "put_batch k (Some e) (l, db)")
  have l1: "l1 = fst (put_batch k (Some e) (l, db))" "db1 = db"
    using p put_batch_fields(2) [of k "Some e" l db] by simp_all
  have d1: "distinct (map fst (keyToEntryBatch l1))"
    unfolding l1 using d by (rule put_batch_fields(1))
  from u k e p have step: "(if int (length (keyToEntryBatch l1)) \<ge> maxBatchSize l1 then
                  (case flushLedgerEntryBatch (l1, db1) of
                     (Some err, s2) \<Rightarrow> (Some err, s2)
                   | (None, s2) \<Rightarrow> (None, reset_batch s2))
                else (None, l1, db1)) = (None, l', db')"
    by (simp add: upsertLedgerEntry_def Let_def)
  note b = buffered_step [OF d1 step]
  have "tx_view l' = (tx_view l)(k \<mapsto> e)"
    using b(1) by (simp add: l1 tx_view_put)
  with k e show "\<exists>k e. encodeLedgerKey xdr key = Inr k \<and> MarshalLedgerEntry xdr entry = Inr e
           \<and> tx_view l' = (tx_view l)(k \<mapsto> e)"
    by blast
  show "distinct (map fst (keyToEntryBatch l'))" by (rule b(2))
  show "committed db' = committed db" using b(3) l1 by simp
  show "txOpen l' = txOpen l" using b(4) by (simp add: l1 put_batch_fields)
  show "forLedgerSequence l' = forLedgerSequence l" using b(5) by (simp add: l1 put_batch_fields)
  show "maxBatchSize l' = maxBatchSize l" using b(6) by (simp add: l1 put_batch_fields)
  show "postWriteCommitHook l' = postWriteCommitHook l" using b(7) by (simp add: l1 put_batch_fields)
qed

lemma delete_ok:
  assumes d: "distinct (map fst (keyToEntryBatch l))"
    and ok: "DeleteLedgerEntry xdr key (l, db) = (None, l', db')"
  shows "\<exists>k. encodeLedgerKey xdr key = Inr k \<and> tx_view l' = (tx_view l)(k := None)"
    and "distinct (map fst (keyToEntryBatch l'))"
    and "committed db' = committed db" and "txOpen l' = txOpen l"
    and "forLedgerSequence l' = forLedgerSequence l" and "maxBatchSize l' = maxBatchSize l"
    and "postWriteCommitHook l' = postWriteCommitHook l"
proof -
  from ok have u: "deleteLedgerEntry xdr key (l, db) = (None, l', db')"
    by (auto simp: DeleteLedgerEntry_def split: prod.splits option.splits)
  then obtain k where k: "encodeLedgerKey xdr key = Inr k"
    by (cases "encodeLedgerKey xdr key") (simp_all add: deleteLedgerEntry_def)
  obtain l1 db1 where p: "put_batch k None (l, db) = (l1, db1)"
    by (cases "put_batch k None (l, db)")
  have l1: "l1 = fst (put_batch k None (l, db))" "db1 = db"
    using p put_batch_fields(2) [of k None l db] by simp_all
  have d1: "distinct (map fst (keyToEntryBatch l1))"
    unfolding l1 using d by (rule put_batch_fields(1))
  from u k p have step: "(if int (length (keyToEntryBatch l1)) > maxBatchSize l1 then
                  (case flushLedgerEntryBatch (l1, db1) of
                     (Some err, s2) \<Rightarrow> (Some err, s2)
                   | (None, s2) \<Rightarrow> (None, reset_batch s2))
                else (None, l1, db1)) = (None, l', db')"
    by (simp add: deleteLedgerEntry_def Let_def)
  note b = buffered_step [OF d1 step]
  have "tx_view l' = (tx_view l)(k := None)"
    using b(1) by (simp add: l1 tx_view_put)
  with k show "\<exists>k. encodeLedgerKey xdr key = Inr k \<and> tx_view l' = (tx_view l)(k := None)"
    by blast
  show "distinct (map fst (keyToEntryBatch l'))" by (rule b(2))
  show "committed db' = committed db" using b(3) l1 by simp
  show "txOpen l' = txOpen l" using b(4) by (simp add: l1 put_batch_fields)
  show "forLedgerSequence l' = forLedgerSequence l" using b(5) by (simp add: l1 put_batch_fields)
  show "maxBatchSize l' = maxBatchSize l" using b(6) by (simp add: l1 put_batch_fields)
  show "postWriteCommitHook l' = postWriteCommitHook l" using b(7) by (simp add: l1 put_batch_fields)
qed

lemma last_on_row_Cons:
  "last_on_row xdr k (c # cs) =
     (case last_on_row xdr k cs of
        Some c' \<Rightarrow> Some c'
      | None \<Rightarrow> if on_row xdr k c then Some c else None)"
  by (simp add: last_on_row_def split: list.splits)

lemma call_write_ok:
  assumes d: "distinct (map fst (keyToEntryBatch l))"
    and w: "is_write c"
    and ok: "call_updater xdr c (l, db) = (None, l', db')"
  shows "tx_view l' k = (if on_row xdr k c then row_after xdr c else tx_view l k)"
    and "distinct (map fst (keyToEntryBatch l'))"
    and "committed db' = committed db" and "txOpen l' = txOpen l"
    and "forLedgerSequence l' = forLedgerSequence l" and "maxBatchSize l' = maxBatchSize l"
    and "postWriteCommitHook l' = postWriteCommitHook l"
proof -
  have "tx_view l' k = (if on_row xdr k c then row_after xdr c else tx_view l k)
      \<and> distinct (map fst (keyToEntryBatch l'))
      \<and> committed db' = committed db \<and> txOpen l' = txOpen l
      \<and> forLedgerSequence l' = forLedgerSequence l \<and> maxBatchSize l' = maxBatchSize l
      \<and> postWriteCommitHook l' = postWriteCommitHook l"
  proof (cases c)
    case (CallUpsert key entry)
    with ok have u: "UpsertLedgerEntry xdr key entry (l, db) = (None, l', db')"
      by (simp add: call_updater_def)
    from upsert_ok(1) [OF d u] obtain k' e where "encodeLedgerKey xdr key = Inr k'"
      "MarshalLedgerEntry xdr entry = Inr e" "tx_view l' = (tx_view l)(k' \<mapsto> e)"
      by blast
    then have "tx_view l' k = (if on_row xdr k c then row_after xdr c else tx_view l k)"
      by (auto simp: CallUpsert)
    with upsert_ok(2-) [OF d u] show ?thesis by simp
  next
    case (CallDelete key)
    with ok have u: "DeleteLedgerEntry xdr key (l, db) = (None, l', db')"
      by (simp add: call_updater_def)
    from delete_ok(1) [OF d u] obtain k' where "encodeLedgerKey xdr key = Inr k'"
      "tx_view l' = (tx_view l)(k' := None)"
      by blast
    then have "tx_view l' k = (if on_row xdr k c then row_after xdr c else tx_view l k)"
      by (auto simp: CallDelete)
    with delete_ok(2-) [OF d u] show ?thesis by simp
  next
    case CallDone
    with w show ?thesis by simp
  qed
  then show "tx_view l' k = (if on_row xdr k c then row_after xdr c else tx_view l k)"
    and "distinct (map fst (keyToEntryBatch l'))"
    and "committed db' = committed db" and "txOpen l' = txOpen l"
    and "forLedgerSequence l' = forLedgerSequence l" and "maxBatchSize l' = maxBatchSize l"
    and "postWriteCommitHook l' = postWriteCommitHook l"
    by simp_all
qed

lemma call_all_writes:
  assumes "distinct (map fst (keyToEntryBatch l))"
    and "\<forall>c \<in> set ops. is_write c"
    and "call_all xdr ops (l, db) = (None, l', db')"
  shows "tx_view l' k = (case last_on_row xdr k ops of None \<Rightarrow> tx_view l k | Some c \<Rightarrow> row_after xdr c)
    \<and> distinct (map fst (keyToEntryBatch l'))
    \<and> committed db' = committed db \<and> txOpen l' = txOpen l
    \<and> forLedgerSequence l' = forLedgerSequence l \<and> postWriteCommitHook l' = postWriteCommitHook l"
  using assms
proof (induction ops arbitrary: l db)
  case Nil
  then show ?case by (simp add: last_on_row_def)
next
  case (Cons c cs)
  obtain e1 l1 db1 where c1: "call_updater xdr c (l, db) = (e1, l1, db1)"
    by (metis prod_cases3)
  with Cons.prems(3) have e1: "e1 = None" by (cases e1) simp_all
  from Cons.prems(3) c1 e1 have rest: "call_all xdr cs (l1, db1) = (None, l', db')" by simp
  from Cons.prems(2) have w: "is_write c" and ws: "\<forall>c \<in> set cs. is_write c" by simp_all
  note s = call_write_ok [OF Cons.prems(1) w c1 [unfolded e1]]
  note IH = Cons.IH [OF s(2) ws rest]
  show ?case
    using IH s(3-) by (simp add: last_on_row_Cons s(1) [of k] split: option.splits)
qed

subsection \<open>The three ways \<open>Done\<close> ends\<close>

lemma Done_cases:
  assumes "Done (l, db) = (res, l', db')"
  shows "(\<exists>err l1 db1. done_inner (l, db) = (Some err, l1, db1) \<and> res = Some err
            \<and> tx_Rollback (l1, db1) = (l', db'))
       \<or> (\<exists>err l1 db1. done_inner (l, db) = (None, l1, db1) \<and> res = Some err
            \<and> \<not> txOpen l' \<and> committed db' = committed db
            \<and> hasPostWriteCommitHook db' = hasPostWriteCommitHook db
            \<and> trace db' = trace db1 @ [CommitFailed])
       \<or> (\<exists>l1 db1 evs. done_inner (l, db) = (None, l1, db1)
            \<and> \<not> txOpen l' \<and> committed db' = txTables l1
            \<and> trace db' = trace db1 @ [Committed] @ evs
            \<and> (res = None \<longrightarrow> evs = (if postWriteCommitHook l then [Checkpointed] else []))
            \<and> (res \<noteq> None \<longrightarrow> evs = [CheckpointFailed]))"
proof -
  obtain e1 l1 db1 where di: "done_inner (l, db) = (e1, l1, db1)"
    by (metis prod_cases3)
  show ?thesis
  proof (cases e1)
    case (Some e)
    with assms di have "done_inner (l, db) = (Some e, l1, db1) \<and> res = Some e
        \<and> tx_Rollback (l1, db1) = (l', db')"
      by (simp add: Done_def)
    then show ?thesis by (intro disjI1) blast
  next
    case None
    note ok = done_inner_ok [OF di [unfolded None]]
    obtain e2 l2 db2 where c: "tx_Commit (l1, db1) = (e2, l2, db2)"
      by (metis prod_cases3)
    show ?thesis
    proof (cases e2)
      case (Some e)
      with assms di None c have r: "res = Some e" "db' = db2" "l' = l2"
        by (simp_all add: Done_def)
      from c Some ok have "\<not> txOpen l2" "committed db2 = committed db1"
        "hasPostWriteCommitHook db2 = hasPostWriteCommitHook db1"
        "trace db2 = trace db1 @ [CommitFailed]"
        by (auto simp: tx_Commit_def split: prod.splits option.splits dest: driver_call_same)
      moreover have "hasPostWriteCommitHook db1 = hasPostWriteCommitHook db"
        using done_inner_quiet [OF di] by (simp add: nothing_committed_def)
      ultimately have "done_inner (l, db) = (None, l1, db1) \<and> res = Some e
            \<and> \<not> txOpen l' \<and> committed db' = committed db
            \<and> hasPostWriteCommitHook db' = hasPostWriteCommitHook db
            \<and> trace db' = trace db1 @ [CommitFailed]"
        using r di None ok by simp
      then show ?thesis by (intro disjI2 disjI1) blast
    next
      case e2: None
      from c e2 ok have c2: "committed db2 = txTables l1" "trace db2 = trace db1 @ [Committed]"
        "postWriteCommitHook l2 = postWriteCommitHook l" "\<not> txOpen l2"
        by (auto simp: tx_Commit_def split: prod.splits option.splits dest: driver_call_same)
      have "\<exists>evs. l' = l2 \<and> committed db' = committed db2 \<and> trace db' = trace db2 @ evs
          \<and> (res = None \<longrightarrow> evs = (if postWriteCommitHook l then [Checkpointed] else []))
          \<and> (res \<noteq> None \<longrightarrow> evs = [CheckpointFailed])"
        using assms di None c e2 c2(3)
        by (auto simp: Done_def run_postWriteCommitHook_def
            split: if_splits prod.splits option.splits dest: driver_call_same)
      then obtain evs where "done_inner (l, db) = (None, l1, db1)
            \<and> \<not> txOpen l' \<and> committed db' = txTables l1
            \<and> trace db' = trace db1 @ [Committed] @ evs
            \<and> (res = None \<longrightarrow> evs = (if postWriteCommitHook l then [Checkpointed] else []))
            \<and> (res \<noteq> None \<longrightarrow> evs = [CheckpointFailed])"
        using c2 di None by auto
      then show ?thesis by (intro disjI2) blast
    qed
  qed
qed

lemma call_all_upsert_marshals:
  assumes "distinct (map fst (keyToEntryBatch l))"
    and "\<forall>c \<in> set ops. is_write c"
    and "call_all xdr ops (l, db) = (None, l', db')"
    and "CallUpsert key e \<in> set ops"
  shows "\<exists>s. MarshalLedgerEntry xdr e = Inr s"
  using assms
proof (induction ops arbitrary: l db)
  case Nil
  then show ?case by simp
next
  case (Cons c cs)
  obtain e1 l1 db1 where c1: "call_updater xdr c (l, db) = (e1, l1, db1)"
    by (metis prod_cases3)
  with Cons.prems(3) have e1: "e1 = None" by (cases e1) simp_all
  from Cons.prems(3) c1 e1 have rest: "call_all xdr cs (l1, db1) = (None, l', db')" by simp
  from Cons.prems(2) have w: "is_write c" and ws: "\<forall>c \<in> set cs. is_write c" by simp_all
  note s = call_write_ok [OF Cons.prems(1) w c1 [unfolded e1]]
  show ?case
  proof (cases "c = CallUpsert key e")
    case True
    with c1 e1 have "UpsertLedgerEntry xdr key e (l, db) = (None, l1, db1)"
      by (simp add: call_updater_def)
    from upsert_ok(1) [OF Cons.prems(1) this] show ?thesis by blast
  next
    case False
    with Cons.prems(4) have "CallUpsert key e \<in> set cs" by simp
    with Cons.IH [OF s(2) ws rest] show ?thesis by blast
  qed
qed

lemma last_on_row_in:
  assumes "last_on_row xdr k ops = Some c"
  shows "c \<in> set ops" and "on_row xdr k c"
proof -
  from assms have ne: "filter (on_row xdr k) ops \<noteq> []" and c: "c = last (filter (on_row xdr k) ops)"
    by (auto simp: last_on_row_def split: list.splits)
  then have "c \<in> set (filter (on_row xdr k) ops)" using last_in_set by blast
  then show "c \<in> set ops" and "on_row xdr k c" by simp_all
qed

lemma GetLedgerEntry_read:
  assumes "faults db = []"
    and "metadata (committed db) latestLedgerSequenceMetaKey = Some (FormatUint (unat seq))"
    and "encodeLedgerKey xdr key = Inr k"
  shows "fst (GetLedgerEntry xdr db key) =
     (case ledger_entries (committed db) k of
        None \<Rightarrow> Some (Inr (None, seq))
      | Some s \<Rightarrow>
          (case UnmarshalLedgerEntry xdr s of
             Inr e \<Rightarrow> Some (Inr (Some e, seq))
           | Inl err \<Rightarrow> if err = ErrNoRows then Some (Inr (None, seq)) else Some (Inl err)))"
  using assms
  by (simp add: GetLedgerEntry_def getLatestLedgerSequence_def getLedgerEntry_def driver_call_def
      select_by_key_def ParseUint32_FormatUint split: option.splits sum.splits)

text \<open>
  C5. When a transaction of upserts and deletes is committed without error, then
  whatever the batch size (and so whatever was flushed in between), every row of the
  committed table is what the last operation on its key left (and is unchanged when no
  operation touched it), the latest ledger sequence is that of the transaction, and
  reading a key returns the entry of the last operation on it.
\<close>

theorem C5_last_operation_wins:
  assumes writes: "\<forall>c \<in> set ops. is_write c"
    and ok: "run_transaction xdr db forSeq maxBatch ops = (None, db')"
  shows "(\<forall>k. ledger_entries (committed db') k =
            (case last_on_row xdr k ops of
               None \<Rightarrow> ledger_entries (committed db) k
             | Some c \<Rightarrow> row_after xdr c))
       \<and> fst (GetLatestLedgerSequence (db'\<lparr>faults := []\<rparr>)) = Some (Inr forSeq)
       \<and> (codec_roundtrip xdr \<longrightarrow>
            (\<forall>key k c. encodeLedgerKey xdr key = Inr k \<and> last_on_row xdr k ops = Some c \<longrightarrow>
               fst (GetLedgerEntry xdr (db'\<lparr>faults := []\<rparr>) key) = Some (Inr (entry_after c, forSeq))))"
proof -
  obtain r0 db0 where new: "NewLedgerEntryUpdaterTx db forSeq maxBatch = (r0, db0)"
    by (cases "NewLedgerEntryUpdaterTx db forSeq maxBatch")
  with ok obtain l0 where r0: "r0 = Inr l0" by (cases r0) (simp_all add: run_transaction_def)
  from new r0 have l0: "keyToEntryBatch l0 = []" "txTables l0 = committed db"
    "forLedgerSequence l0 = forSeq"
    by (auto simp: NewLedgerEntryUpdaterTx_def split: prod.splits option.splits
        dest: driver_call_same)
  obtain e2 l2 db2 where ca: "call_all xdr ops (l0, db0) = (e2, l2, db2)"
    by (metis prod_cases3)
  with ok new r0 have e2: "e2 = None" by (cases e2) (simp_all add: run_transaction_def)
  obtain r3 l3 db3 where dn: "Done (l2, db2) = (r3, l3, db3)"
    by (metis prod_cases3)
  with ok new r0 ca e2 have r3: "r3 = None" "db3 = db'"
    by (simp_all add: run_transaction_def)
  have d0: "distinct (map fst (keyToEntryBatch l0))" by (simp add: l0)
  note w = call_all_writes [OF d0 writes ca [unfolded e2]]
  from w [of undefined] have d2: "distinct (map fst (keyToEntryBatch l2))"
    and seq2: "forLedgerSequence l2 = forSeq"
    by (simp_all add: l0)
  from Done_cases [OF dn] r3 obtain l1 db1 where di: "done_inner (l2, db2) = (None, l1, db1)"
    and com: "committed db' = txTables l1"
    by auto
  note ok1 = done_inner_ok [OF di]
  have table: "ledger_entries (committed db') k =
      (case last_on_row xdr k ops of None \<Rightarrow> ledger_entries (committed db) k | Some c \<Rightarrow> row_after xdr c)"
    for k
  proof -
    have "ledger_entries (committed db') k = tx_view l2 k"
      by (simp add: com ok1(3) flush_statements_apply [OF d2] tx_view_def)
    also have "\<dots> = (case last_on_row xdr k ops of None \<Rightarrow> tx_view l0 k | Some c \<Rightarrow> row_after xdr c)"
      using w [of k] by simp
    finally show ?thesis by (simp add: tx_view_def l0 split: option.splits)
  qed
  have meta: "metadata (committed (db'\<lparr>faults := []\<rparr>)) latestLedgerSequenceMetaKey
      = Some (FormatUint (unat forSeq))"
    using ok1(2) by (simp add: com seq2)
  then have latest: "fst (GetLatestLedgerSequence (db'\<lparr>faults := []\<rparr>)) = Some (Inr forSeq)"
    by (rule GetLatestLedgerSequence_found) simp
  have read: "fst (GetLedgerEntry xdr (db'\<lparr>faults := []\<rparr>) key) = Some (Inr (entry_after c, forSeq))"
    if rt: "codec_roundtrip xdr" and k: "encodeLedgerKey xdr key = Inr k"
      and c: "last_on_row xdr k ops = Some c" for key k c
  proof -
    have row: "ledger_entries (committed db') k = row_after xdr c"
      using table [of k] c by simp
    have g: "fst (GetLedgerEntry xdr (db'\<lparr>faults := []\<rparr>) key) =
       (case ledger_entries (committed db') k of
          None \<Rightarrow> Some (Inr (None, forSeq))
        | Some s \<Rightarrow>
            (case UnmarshalLedgerEntry xdr s of
               Inr e \<Rightarrow> Some (Inr (Some e, forSeq))
             | Inl err \<Rightarrow> if err = ErrNoRows then Some (Inr (None, forSeq)) else Some (Inl err)))"
      using GetLedgerEntry_read [OF _ meta k] by simp
    show ?thesis
    proof (cases c)
      case (CallUpsert key' e)
      with last_on_row_in(1) [OF c] have "CallUpsert key' e \<in> set ops" by simp
      from call_all_upsert_marshals [OF d0 writes ca [unfolded e2] this]
      obtain s where s: "MarshalLedgerEntry xdr e = Inr s" by blast
      with rt have "UnmarshalLedgerEntry xdr s = Inr e" by (simp add: codec_roundtrip_def)
      with s show ?thesis by (simp add: g row CallUpsert)
    next
      case (CallDelete key')
      then show ?thesis by (simp add: g row)
    next
      case CallDone
      with last_on_row_in(2) [OF c] show ?thesis by simp
    qed
  qed
  from table latest read show ?thesis by blast
qed

lemmas updater_eval =
  run_transaction_def NewLedgerEntryUpdaterTx_def call_updater_def
  UpsertLedgerEntry_def upsertLedgerEntry_def DeleteLedgerEntry_def deleteLedgerEntry_def
  Done_def done_inner_def flushLedgerEntryBatch_def put_batch_def reset_batch_def
  tx_Exec_def tx_Commit_def tx_Rollback_def run_postWriteCommitHook_def
  upsertLatestLedgerSequence_def driver_call_def log_event_def encodeLedgerKey_def
  empty_db_def string_codec_def latestLedgerSequenceMetaKey_def Let_def

lemma run_upsert_delete:
  "run_transaction string_codec empty_db 10 1 [CallUpsert ''k'' ''e'', CallDelete ''k''] =
     (None,
      \<lparr>committed = \<lparr>ledger_entries = Map.empty,
                     metadata = [''LatestLedgerSequence'' \<mapsto> ''10'']\<rparr>,
       faults = [],
       trace = [Began,
                Executed (ReplaceLedgerEntries [(''k'', ''e'')]),
                Executed (DeleteLedgerEntries [''k'']),
                Executed (ReplaceMetadata ''LatestLedgerSequence'' ''10''),
                Committed, Checkpointed],
       hasPostWriteCommitHook = True\<rparr>)"
  by (simp add: updater_eval FormatUint_10 fun_eq_iff)

theorem C5_last_operation_wins_witness:
  "fst (run_transaction string_codec empty_db 10 1 [CallUpsert ''k'' ''e'', CallDelete ''k'']) = None
   \<and> ledger_entries (committed (snd (run_transaction string_codec empty_db 10 1
         [CallUpsert ''k'' ''e'', CallDelete ''k'']))) ''k'' = None
   \<and> fst (GetLatestLedgerSequence (snd (run_transaction string_codec empty_db 10 1
         [CallUpsert ''k'' ''e'', CallDelete ''k'']))) = Some (Inr 10)
   \<and> fst (GetLedgerEntry string_codec (snd (run_transaction string_codec empty_db 10 1
         [CallUpsert ''k'' ''e'', CallDelete ''k''])) ''k'') = Some (Inr (None, 10))"
proof -
  have rt: "codec_roundtrip string_codec"
    by (simp add: codec_roundtrip_def string_codec_def)
  have k: "encodeLedgerKey string_codec ''k'' = Inr ''k''"
    by (simp add: encodeLedgerKey_def string_codec_def)
  have last: "last_on_row string_codec ''k'' [CallUpsert ''k'' ''e'', CallDelete ''k''] = Some (CallDelete ''k'')"
    by (simp add: last_on_row_def k)
  show ?thesis
    using C5_last_operation_wins [OF _ run_upsert_delete] rt k last
    by (simp add: run_upsert_delete)
qed

subsection \<open>Errors and rollback\<close>

lemma flush_txOpen:
  assumes "flushLedgerEntryBatch (l, db) = (r, l', db')"
  shows "txOpen l' = txOpen l"
proof -
  let ?ups = "batch_upserts (keyToEntryBatch l)"
  let ?dels = "batch_deletes (keyToEntryBatch l)"
  obtain e1 l1 db1 where s1: "(if length ?ups > 0 then tx_Exec (ReplaceLedgerEntries ?ups) (l, db)
       else (None, l, db)) = (e1, l1, db1)"
    by (metis prod_cases3)
  then have o1: "txOpen l1 = txOpen l"
    by (auto split: if_splits dest: tx_Exec_committed(2))
  show ?thesis
  proof (cases e1)
    case (Some e)
    with assms s1 have "l' = l1" by (simp add: flushLedgerEntryBatch_def Let_def)
    with o1 show ?thesis by simp
  next
    case None
    with assms s1 have "(if length ?dels > 0 then tx_Exec (DeleteLedgerEntries ?dels) (l1, db1)
       else (None, l1, db1)) = (r, l', db')"
      by (simp add: flushLedgerEntryBatch_def Let_def)
    then have "txOpen l' = txOpen l1"
      by (auto split: if_splits dest: tx_Exec_committed(2))
    with o1 show ?thesis by simp
  qed
qed

lemma buffered_step_quiet:
  assumes "(if flushes then
              (case flushLedgerEntryBatch (l1, db1) of
                 (Some err, s2) \<Rightarrow> (Some err, s2)
               | (None, s2) \<Rightarrow> (None, reset_batch s2))
            else (None, l1, db1)) = (r, l', db')"
  shows "nothing_committed db1 db'" and "txOpen l' = txOpen l1"
proof -
  have "nothing_committed db1 db' \<and> txOpen l' = txOpen l1"
  proof (cases flushes)
    case False
    with assms show ?thesis by simp
  next
    case True
    obtain e2 l2 db2 where f: "flushLedgerEntryBatch (l1, db1) = (e2, l2, db2)"
      by (metis prod_cases3)
    have "db' = db2 \<and> txOpen l' = txOpen l2"
      using assms True f by (cases e2) (auto simp: reset_batch_def)
    with flush_quiet [OF f] flush_txOpen [OF f] show ?thesis by simp
  qed
  then show "nothing_committed db1 db'" and "txOpen l' = txOpen l1" by simp_all
qed

lemma upsertLedgerEntry_quiet:
  assumes "upsertLedgerEntry xdr key entry (l, db) = (r, l', db')"
  shows "nothing_committed db db'" and "txOpen l' = txOpen l"
proof -
  have "nothing_committed db db' \<and> txOpen l' = txOpen l"
  proof (cases "encodeLedgerKey xdr key")
    case (Inl e)
    with assms show ?thesis by (simp add: upsertLedgerEntry_def)
  next
    case (Inr k)
    show ?thesis
    proof (cases "MarshalLedgerEntry xdr entry")
      case (Inl e)
      with assms Inr show ?thesis by (simp add: upsertLedgerEntry_def)
    next
      case e: (Inr e)
      obtain l1 db1 where p: "put_batch k (Some e) (l, db) = (l1, db1)"
        by (cases "put_batch k (Some e) (l, db)")
      then have l1: "txOpen l1 = txOpen l" "db1 = db"
        by (auto simp: put_batch_def)
      from assms Inr e p have "(if int (length (keyToEntryBatch l1)) \<ge> maxBatchSize l1 then
              (case flushLedgerEntryBatch (l1, db1) of
                 (Some err, s2) \<Rightarrow> (Some err, s2)
               | (None, s2) \<Rightarrow> (None, reset_batch s2))
            else (None, l1, db1)) = (r, l', db')"
        by (simp add: upsertLedgerEntry_def Let_def)
      from buffered_step_quiet [OF this] l1 show ?thesis by simp
    qed
  qed
  then show "nothing_committed db db'" and "txOpen l' = txOpen l" by simp_all
qed

lemma deleteLedgerEntry_quiet:
  assumes "deleteLedgerEntry xdr key (l, db) = (r, l', db')"
  shows "nothing_committed db db'" and "txOpen l' = txOpen l"
proof -
  have "nothing_committed db db' \<and> txOpen l' = txOpen l"
  proof (cases "encodeLedgerKey xdr key")
    case (Inl e)
    with assms show ?thesis by (simp add: deleteLedgerEntry_def)
  next
    case (Inr k)
    obtain l1 db1 where p: "put_batch k None (l, db) = (l1, db1)"
      by (cases "put_batch k None (l, db)")
    then have l1: "txOpen l1 = txOpen l" "db1 = db"
      by (auto simp: put_batch_def)
    from assms Inr p have "(if int (length (keyToEntryBatch l1)) > maxBatchSize l1 then
            (case flushLedgerEntryBatch (l1, db1) of
               (Some err, s2) \<Rightarrow> (Some err, s2)
             | (None, s2) \<Rightarrow> (None, reset_batch s2))
          else (None, l1, db1)) = (r, l', db')"
      by (simp add: deleteLedgerEntry_def Let_def)
    from buffered_step_quiet [OF this] l1 show ?thesis by simp
  qed
  then show "nothing_committed db db'" and "txOpen l' = txOpen l" by simp_all
qed

lemma done_inner_txOpen:
  assumes "done_inner (l, db) = (r, l', db')"
  shows "txOpen l' = txOpen l"
proof -
  obtain e1 l1 db1 where f: "flushLedgerEntryBatch (l, db) = (e1, l1, db1)"
    by (metis prod_cases3)
  show ?thesis
  proof (cases e1)
    case (Some e)
    with assms f flush_txOpen [OF f] show ?thesis by (simp add: done_inner_def)
  next
    case None
    with assms f have "tx_Exec (ReplaceMetadata latestLedgerSequenceMetaKey
        (FormatUint (unat (forLedgerSequence l1)))) (l1, db1) = (r, l', db')"
      by (simp add: done_inner_def upsertLatestLedgerSequence_def)
    from tx_Exec_committed(2) [OF this] flush_txOpen [OF f] show ?thesis by simp
  qed
qed

text \<open>Rolling back after a step that committed nothing.\<close>

lemma rollback_after:
  assumes q: "nothing_committed db db1" and o: "txOpen l1 = txOpen l"
    and rb: "tx_Rollback (l1, db1) = (l', db')"
  shows "\<not> txOpen l' \<and> nothing_committed db db' \<and> (txOpen l \<longrightarrow> last (trace db') = RolledBack)"
proof -
  from rb have "\<not> txOpen l'" and "nothing_committed db1 db'"
    by (rule tx_Rollback_quiet(2), rule tx_Rollback_quiet(1))
  moreover have "last (trace db') = RolledBack" if "txOpen l"
    using that o rb by (auto simp: tx_Rollback_def)
  ultimately show ?thesis using q nothing_committed_trans by blast
qed

lemma closed_call:
  assumes "\<not> txOpen l" and "call_updater xdr c (l, db) = (r, l', db')"
  shows "\<not> txOpen l'" and "nothing_committed db db'"
proof -
  have "\<not> txOpen l' \<and> nothing_committed db db'"
  proof (cases c)
    case (CallUpsert key entry)
    obtain e1 l1 db1 where u: "upsertLedgerEntry xdr key entry (l, db) = (e1, l1, db1)"
      by (metis prod_cases3)
    note q = upsertLedgerEntry_quiet [OF u]
    show ?thesis
    proof (cases e1)
      case None
      with assms CallUpsert u q show ?thesis
        by (simp add: call_updater_def UpsertLedgerEntry_def)
    next
      case (Some e)
      with assms CallUpsert u have "tx_Rollback (l1, db1) = (l', db')"
        by (simp add: call_updater_def UpsertLedgerEntry_def)
      from rollback_after [OF q this] show ?thesis by simp
    qed
  next
    case (CallDelete key)
    obtain e1 l1 db1 where u: "deleteLedgerEntry xdr key (l, db) = (e1, l1, db1)"
      by (metis prod_cases3)
    note q = deleteLedgerEntry_quiet [OF u]
    show ?thesis
    proof (cases e1)
      case None
      with assms CallDelete u q show ?thesis
        by (simp add: call_updater_def DeleteLedgerEntry_def)
    next
      case (Some e)
      with assms CallDelete u have "tx_Rollback (l1, db1) = (l', db')"
        by (simp add: call_updater_def DeleteLedgerEntry_def)
      from rollback_after [OF q this] show ?thesis by simp
    qed
  next
    case CallDone
    with assms have dn: "Done (l, db) = (r, l', db')" by (simp add: call_updater_def)
    obtain e1 l1 db1 where di: "done_inner (l, db) = (e1, l1, db1)"
      by (metis prod_cases3)
    have "e1 \<noteq> None"
    proof
      assume "e1 = None"
      with di have "done_inner (l, db) = (None, l1, db1)" by simp
      from done_inner_ok(4) [OF this] done_inner_txOpen [OF this] assms(1) show False by simp
    qed
    then obtain e where "e1 = Some e" by (cases e1) auto
    with dn di have "tx_Rollback (l1, db1) = (l', db')" by (simp add: Done_def)
    from rollback_after [OF done_inner_quiet [OF di] done_inner_txOpen [OF di] this]
    show ?thesis by simp
  qed
  then show "\<not> txOpen l'" and "nothing_committed db db'" by simp_all
qed

lemma closed_forever:
  assumes "\<not> txOpen l"
  shows "\<not> txOpen (fst (call_regardless xdr calls (l, db)))
       \<and> nothing_committed db (snd (call_regardless xdr calls (l, db)))"
  using assms
proof (induction calls arbitrary: l db)
  case Nil
  then show ?case by simp
next
  case (Cons c cs)
  obtain r l1 db1 where c1: "call_updater xdr c (l, db) = (r, l1, db1)"
    by (metis prod_cases3)
  note s = closed_call [OF Cons.prems c1]
  from Cons.IH [OF s(1), of db1] s(2) c1 show ?case
    using nothing_committed_trans by auto
qed

text \<open>
  C10. When \<open>UpsertLedgerEntry\<close> or \<open>DeleteLedgerEntry\<close> returns an error, and when \<open>Done\<close>
  returns the error of its final flush or of the update of the latest sequence, the
  transaction is finished, the rollback was the last thing done on the database (if the
  transaction was still open), and readers see the tables they saw before. On a finished
  transaction no later call of the updater ever commits anything.
\<close>

theorem C10_error_rolls_back:
  "(UpsertLedgerEntry xdr key entry (l, db) = (Some err, l', db') \<longrightarrow>
      \<not> txOpen l' \<and> nothing_committed db db' \<and> (txOpen l \<longrightarrow> last (trace db') = RolledBack))
   \<and> (DeleteLedgerEntry xdr key (l, db) = (Some err, l', db') \<longrightarrow>
      \<not> txOpen l' \<and> nothing_committed db db' \<and> (txOpen l \<longrightarrow> last (trace db') = RolledBack))
   \<and> (Done (l, db) = (Some err, l', db') \<and> fst (done_inner (l, db)) \<noteq> None \<longrightarrow>
      \<not> txOpen l' \<and> nothing_committed db db' \<and> (txOpen l \<longrightarrow> last (trace db') = RolledBack))
   \<and> (\<not> txOpen l \<longrightarrow>
      (\<forall>calls. \<not> txOpen (fst (call_regardless xdr calls (l, db)))
         \<and> nothing_committed db (snd (call_regardless xdr calls (l, db)))))"
proof -
  have upsert: "\<not> txOpen l' \<and> nothing_committed db db' \<and> (txOpen l \<longrightarrow> last (trace db') = RolledBack)"
    if a: "UpsertLedgerEntry xdr key entry (l, db) = (Some err, l', db')"
  proof -
    obtain e1 l1 db1 where u: "upsertLedgerEntry xdr key entry (l, db) = (e1, l1, db1)"
      by (metis prod_cases3)
    with a have "tx_Rollback (l1, db1) = (l', db')"
      by (cases e1) (simp_all add: UpsertLedgerEntry_def)
    from rollback_after [OF upsertLedgerEntry_quiet [OF u] this] show ?thesis .
  qed
  have delete: "\<not> txOpen l' \<and> nothing_committed db db' \<and> (txOpen l \<longrightarrow> last (trace db') = RolledBack)"
    if a: "DeleteLedgerEntry xdr key (l, db) = (Some err, l', db')"
  proof -
    obtain e1 l1 db1 where u: "deleteLedgerEntry xdr key (l, db) = (e1, l1, db1)"
      by (metis prod_cases3)
    with a have "tx_Rollback (l1, db1) = (l', db')"
      by (cases e1) (simp_all add: DeleteLedgerEntry_def)
    from rollback_after [OF deleteLedgerEntry_quiet [OF u] this] show ?thesis .
  qed
  have finish: "\<not> txOpen l' \<and> nothing_committed db db' \<and> (txOpen l \<longrightarrow> last (trace db') = RolledBack)"
    if a: "Done (l, db) = (Some err, l', db') \<and> fst (done_inner (l, db)) \<noteq> None"
  proof -
    obtain e1 l1 db1 where di: "done_inner (l, db) = (e1, l1, db1)"
      by (metis prod_cases3)
    with a obtain e where "e1 = Some e" by (cases e1) auto
    with a di have "tx_Rollback (l1, db1) = (l', db')" by (simp add: Done_def)
    from rollback_after [OF done_inner_quiet [OF di] done_inner_txOpen [OF di] this]
    show ?thesis .
  qed
  have closed: "\<forall>calls. \<not> txOpen (fst (call_regardless xdr calls (l, db)))
         \<and> nothing_committed db (snd (call_regardless xdr calls (l, db)))"
    if "\<not> txOpen l"
    using that closed_forever by blast
  from upsert delete finish closed show ?thesis by blast
qed

lemma upsert_bad_key:
  "UpsertLedgerEntry string_codec ''bad'' ''e'' (updater10, empty_db) =
     (Some (ExternalError 1), updater10\<lparr>txOpen := False\<rparr>, empty_db\<lparr>trace := [RolledBack]\<rparr>)"
  by (simp add: updater_eval updater10_def)

lemma delete_flush_fails:
  "DeleteLedgerEntry string_codec ''k2'' (updater_small\<lparr>maxBatchSize := 1\<rparr>, failing_db) =
     (Some (ExternalError 5),
      updater_small\<lparr>maxBatchSize := 1, txOpen := False,
                     keyToEntryBatch := [(''k1'', Some ''e1''), (''k2'', None)]\<rparr>,
      empty_db\<lparr>trace := [ExecFailed (ReplaceLedgerEntries [(''k1'', ''e1'')]), RolledBack]\<rparr>)"
  by (simp add: updater_eval updater10_def updater_small_def failing_db_def)

lemma done_sequence_update_fails:
  "Done (updater10, failing_later_db) =
     (Some (ExternalError 6),
      updater10\<lparr>txOpen := False, txTables := \<lparr>ledger_entries = [''k1'' \<mapsto> ''e1''], metadata = Map.empty\<rparr>\<rparr>,
      empty_db\<lparr>trace := [Executed (ReplaceLedgerEntries [(''k1'', ''e1'')]),
                          Executed (DeleteLedgerEntries [''k2'']),
                          ExecFailed (ReplaceMetadata ''LatestLedgerSequence'' ''10''),
                          RolledBack]\<rparr>)"
  by (simp add: updater_eval updater10_def failing_later_db_def FormatUint_10)

theorem C10_error_rolls_back_witness:
  "fst (UpsertLedgerEntry string_codec ''bad'' ''e'' (updater10, empty_db)) = Some (ExternalError 1)
   \<and> committed (snd (snd (UpsertLedgerEntry string_codec ''bad'' ''e'' (updater10, empty_db))))
       = committed empty_db
   \<and> fst (DeleteLedgerEntry string_codec ''k2'' (updater_small\<lparr>maxBatchSize := 1\<rparr>, failing_db))
       = Some (ExternalError 5)
   \<and> committed (snd (snd (DeleteLedgerEntry string_codec ''k2'' (updater_small\<lparr>maxBatchSize := 1\<rparr>, failing_db))))
       = committed failing_db
   \<and> fst (Done (updater10, failing_later_db)) = Some (ExternalError 6)
   \<and> last (trace (snd (snd (Done (updater10, failing_later_db))))) = RolledBack
   \<and> committed (snd (call_regardless string_codec [CallUpsert ''k3'' ''e3'', CallDone]
        (updater10\<lparr>txOpen := False\<rparr>, empty_db\<lparr>trace := [RolledBack]\<rparr>)))
       = committed empty_db"
proof (intro conjI)
  show "fst (UpsertLedgerEntry string_codec ''bad'' ''e'' (updater10, empty_db)) = Some (ExternalError 1)"
    by (simp add: upsert_bad_key)
  show "committed (snd (snd (UpsertLedgerEntry string_codec ''bad'' ''e'' (updater10, empty_db))))
       = committed empty_db"
    using C10_error_rolls_back [of string_codec "''bad''" "''e''" updater10 empty_db
        "ExternalError 1" "updater10\<lparr>txOpen := False\<rparr>" "empty_db\<lparr>trace := [RolledBack]\<rparr>"]
    by (simp add: upsert_bad_key nothing_committed_def)
  show "fst (DeleteLedgerEntry string_codec ''k2'' (updater_small\<lparr>maxBatchSize := 1\<rparr>, failing_db))
       = Some (ExternalError 5)"
    by (simp add: delete_flush_fails)
  show "committed (snd (snd (DeleteLedgerEntry string_codec ''k2'' (updater_small\<lparr>maxBatchSize := 1\<rparr>, failing_db))))
       = committed failing_db"
    using C10_error_rolls_back [of string_codec "''k2''" undefined
        "updater_small\<lparr>maxBatchSize := 1\<rparr>" failing_db "ExternalError 5"
        "updater_small\<lparr>maxBatchSize := 1, txOpen := False,
                     keyToEntryBatch := [(''k1'', Some ''e1''), (''k2'', None)]\<rparr>"
        "empty_db\<lparr>trace := [ExecFailed (ReplaceLedgerEntries [(''k1'', ''e1'')]), RolledBack]\<rparr>"]
    by (simp add: delete_flush_fails nothing_committed_def)
  show "fst (Done (updater10, failing_later_db)) = Some (ExternalError 6)"
    by (simp add: done_sequence_update_fails)
  have fail: "fst (done_inner (updater10, failing_later_db)) \<noteq> None"
    by (simp add: updater_eval updater10_def failing_later_db_def FormatUint_10)
  have o: "txOpen updater10" by (simp add: updater10_def)
  show "last (trace (snd (snd (Done (updater10, failing_later_db))))) = RolledBack"
    using C10_error_rolls_back [of string_codec undefined undefined updater10 failing_later_db
        "ExternalError 6"
        "updater10\<lparr>txOpen := False, txTables := \<lparr>ledger_entries = [''k1'' \<mapsto> ''e1''], metadata = Map.empty\<rparr>\<rparr>"
        "empty_db\<lparr>trace := [Executed (ReplaceLedgerEntries [(''k1'', ''e1'')]),
                          Executed (DeleteLedgerEntries [''k2'']),
                          ExecFailed (ReplaceMetadata ''LatestLedgerSequence'' ''10''),
                          RolledBack]\<rparr>"]
      fail o
    by (simp add: done_sequence_update_fails)
  have closed: "\<not> txOpen (updater10\<lparr>txOpen := False\<rparr>)" by simp
  have "\<forall>calls. \<not> txOpen (fst (call_regardless string_codec calls
            (updater10\<lparr>txOpen := False\<rparr>, empty_db\<lparr>trace := [RolledBack]\<rparr>)))
         \<and> nothing_committed (empty_db\<lparr>trace := [RolledBack]\<rparr>)
             (snd (call_regardless string_codec calls
               (updater10\<lparr>txOpen := False\<rparr>, empty_db\<lparr>trace := [RolledBack]\<rparr>)))"
    using C10_error_rolls_back [of string_codec undefined undefined "updater10\<lparr>txOpen := False\<rparr>"
        "empty_db\<lparr>trace := [RolledBack]\<rparr>" undefined undefined undefined] closed
    by blast
  then have "nothing_committed (empty_db\<lparr>trace := [RolledBack]\<rparr>)
      (snd (call_regardless string_codec [CallUpsert ''k3'' ''e3'', CallDone]
        (updater10\<lparr>txOpen := False\<rparr>, empty_db\<lparr>trace := [RolledBack]\<rparr>)))"
    by blast
  then show "committed (snd (call_regardless string_codec [CallUpsert ''k3'' ''e3'', CallDone]
        (updater10\<lparr>txOpen := False\<rparr>, empty_db\<lparr>trace := [RolledBack]\<rparr>)))
       = committed empty_db"
    by (simp add: nothing_committed_def)
qed

subsection \<open>When the batch is flushed\<close>

lemma upsert_leaves_room:
  assumes "UpsertLedgerEntry xdr key entry (l, db) = (None, l', db')"
    and "1 \<le> maxBatchSize l"
  shows "int (length (keyToEntryBatch l')) < maxBatchSize l'"
proof -
  from assms(1) have u: "upsertLedgerEntry xdr key entry (l, db) = (None, l', db')"
    by (auto simp: UpsertLedgerEntry_def split: prod.splits option.splits)
  then obtain k where k: "encodeLedgerKey xdr key = Inr k"
    by (cases "encodeLedgerKey xdr key") (simp_all add: upsertLedgerEntry_def)
  with u obtain e where e: "MarshalLedgerEntry xdr entry = Inr e"
    by (cases "MarshalLedgerEntry xdr entry") (simp_all add: upsertLedgerEntry_def)
  obtain l1 db1 where p: "put_batch k (Some e) (l, db) = (l1, db1)"
    by (cases "put_batch k (Some e) (l, db)")
  then have m1: "maxBatchSize l1 = maxBatchSize l" by (auto simp: put_batch_def)
  from u k e p have step: "(if int (length (keyToEntryBatch l1)) \<ge> maxBatchSize l1 then
                  (case flushLedgerEntryBatch (l1, db1) of
                     (Some err, s2) \<Rightarrow> (Some err, s2)
                   | (None, s2) \<Rightarrow> (None, reset_batch s2))
                else (None, l1, db1)) = (None, l', db')"
    by (simp add: upsertLedgerEntry_def Let_def)
  show ?thesis
  proof (cases "int (length (keyToEntryBatch l1)) \<ge> maxBatchSize l1")
    case False
    with step show ?thesis by simp
  next
    case True
    obtain e2 l2 db2 where f: "flushLedgerEntryBatch (l1, db1) = (e2, l2, db2)"
      by (metis prod_cases3)
    with step True have e2: "e2 = None" and r: "reset_batch (l2, db2) = (l', db')"
      by (cases e2; simp)+
    from r have "keyToEntryBatch l' = []" "maxBatchSize l' = maxBatchSize l2"
      by (auto simp: reset_batch_def)
    with flush_ok(7) [OF f [unfolded e2]] m1 assms(2) show ?thesis by simp
  qed
qed

text \<open>
  C6. With batch size 2 and one buffered upsert, \<open>DeleteLedgerEntry\<close> of another key returns
  without error and without a statement issued, and leaves a batch whose size equals the
  batch size; \<open>UpsertLedgerEntry\<close> of another key in the same state flushes and clears the
  batch.
\<close>

theorem C6_delete_leaves_full_batch:
  "DeleteLedgerEntry string_codec ''k2'' (updater_small, empty_db) =
     (None, updater_small\<lparr>keyToEntryBatch := [(''k1'', Some ''e1''), (''k2'', None)]\<rparr>, empty_db)
   \<and> int (length [(''k1'', Some ''e1''), (''k2'', None :: string option)]) = maxBatchSize updater_small
   \<and> UpsertLedgerEntry string_codec ''k2'' ''e2'' (updater_small, empty_db) =
     (None,
      updater_small\<lparr>keyToEntryBatch := [],
        txTables := \<lparr>ledger_entries = [''k1'' \<mapsto> ''e1'', ''k2'' \<mapsto> ''e2''], metadata = Map.empty\<rparr>\<rparr>,
      empty_db\<lparr>trace := [Executed (ReplaceLedgerEntries [(''k1'', ''e1''), (''k2'', ''e2'')])]\<rparr>)"
  by (simp add: updater_eval updater_small_def updater10_def)


section \<open>Properties of the ingestion driver\<close>

subsection \<open>Write transactions of the driver\<close>

lemma NewTx_result:
  assumes "NewTx b d = (r, d1)"
  shows "nothing_committed d d1"
    and "r = Inr tx \<Longrightarrow> txOpen tx \<and> txTables tx = committed d \<and> keyToEntryBatch tx = []
           \<and> postWriteCommitHook tx = hasPostWriteCommitHook d"
  using assms
  by (auto simp: NewTx_def NewLedgerEntryUpdaterTx_def nothing_committed_def
      split: prod.splits option.splits dest: driver_call_same)

lemma call_write_quiet:
  assumes "is_write c" and "call_updater xdr c (l, d) = (r, l', d')"
  shows "nothing_committed d d'"
proof (cases c)
  case (CallUpsert key entry)
  obtain e1 l1 d1 where u: "upsertLedgerEntry xdr key entry (l, d) = (e1, l1, d1)"
    by (metis prod_cases3)
  note q = upsertLedgerEntry_quiet [OF u]
  show ?thesis
  proof (cases e1)
    case None
    with assms CallUpsert u q show ?thesis
      by (simp add: call_updater_def UpsertLedgerEntry_def)
  next
    case (Some e)
    with assms CallUpsert u have "tx_Rollback (l1, d1) = (l', d')"
      by (simp add: call_updater_def UpsertLedgerEntry_def)
    from rollback_after [OF q this] show ?thesis by simp
  qed
next
  case (CallDelete key)
  obtain e1 l1 d1 where u: "deleteLedgerEntry xdr key (l, d) = (e1, l1, d1)"
    by (metis prod_cases3)
  note q = deleteLedgerEntry_quiet [OF u]
  show ?thesis
  proof (cases e1)
    case None
    with assms CallDelete u q show ?thesis
      by (simp add: call_updater_def DeleteLedgerEntry_def)
  next
    case (Some e)
    with assms CallDelete u have "tx_Rollback (l1, d1) = (l', d')"
      by (simp add: call_updater_def DeleteLedgerEntry_def)
    from rollback_after [OF q this] show ?thesis by simp
  qed
next
  case CallDone
  with assms show ?thesis by simp
qed

lemma ingestLedgerEntryChanges_quiet:
  assumes "ingestLedgerEntryChanges xdr reads (l, d) = (r, l', d')"
  shows "nothing_committed d d'"
  using assms
proof (induction xdr reads "(l, d)" arbitrary: l d rule: ingestLedgerEntryChanges.induct)
  case (1 xdr)
  then show ?case by simp
next
  case (2 xdr err rest)
  then show ?case by simp
next
  case (3 xdr key entry rest)
  obtain e1 l1 d1 where u: "UpsertLedgerEntry xdr key entry (l, d) = (e1, l1, d1)"
    by (metis prod_cases3)
  then have "call_updater xdr (CallUpsert key entry) (l, d) = (e1, l1, d1)"
    by (simp add: call_updater_def)
  then have q: "nothing_committed d d1" by (rule call_write_quiet [rotated]) simp
  show ?case
  proof (cases e1)
    case (Some e)
    with "3.prems" u q show ?thesis by simp
  next
    case None
    with "3.prems" u have "ingestLedgerEntryChanges xdr rest (l1, d1) = (r, l', d')" by simp
    from "3.hyps" [OF u [unfolded None, symmetric] refl this] q show ?thesis
      using nothing_committed_trans by blast
  qed
next
  case (4 xdr key rest)
  obtain e1 l1 d1 where u: "DeleteLedgerEntry xdr key (l, d) = (e1, l1, d1)"
    by (metis prod_cases3)
  then have "call_updater xdr (CallDelete key) (l, d) = (e1, l1, d1)"
    by (simp add: call_updater_def)
  then have q: "nothing_committed d d1" by (rule call_write_quiet [rotated]) simp
  show ?case
  proof (cases e1)
    case (Some e)
    with "4.prems" u q show ?thesis by simp
  next
    case None
    with "4.prems" u have "ingestLedgerEntryChanges xdr rest (l1, d1) = (r, l', d')" by simp
    from "4.hyps" [OF u [unfolded None, symmetric] refl this] q show ?thesis
      using nothing_committed_trans by blast
  qed
qed

lemma ingestLedgerEntryChanges_calls:
  assumes "ingestLedgerEntryChanges xdr reads s = (None, s')"
  shows "call_all xdr (change_calls reads) s = (None, s')"
  using assms
proof (induction xdr reads s rule: ingestLedgerEntryChanges.induct)
  case (1 xdr s)
  then show ?case by (simp add: change_calls_def)
next
  case (2 xdr err rest s)
  then show ?case by simp
next
  case (3 xdr key entry rest s)
  obtain e1 s1 where u: "UpsertLedgerEntry xdr key entry s = (e1, s1)"
    by (cases "UpsertLedgerEntry xdr key entry s")
  with "3.prems" have e1: "e1 = None" by (cases e1) simp_all
  with "3.prems" u have "ingestLedgerEntryChanges xdr rest s1 = (None, s')" by simp
  from "3.IH" [OF u [unfolded e1, symmetric] refl this] u e1 show ?case
    by (simp add: change_calls_def call_updater_def)
next
  case (4 xdr key rest s)
  obtain e1 s1 where u: "DeleteLedgerEntry xdr key s = (e1, s1)"
    by (cases "DeleteLedgerEntry xdr key s")
  with "4.prems" have e1: "e1 = None" by (cases e1) simp_all
  with "4.prems" u have "ingestLedgerEntryChanges xdr rest s1 = (None, s')" by simp
  from "4.IH" [OF u [unfolded e1, symmetric] refl this] u e1 show ?case
    by (simp add: change_calls_def call_updater_def)
qed

lemma change_calls_Cons:
  "change_calls (ReadOk (Upserted key entry) # rest) = CallUpsert key entry # change_calls rest"
  "change_calls (ReadOk (Removed key) # rest) = CallDelete key # change_calls rest"
  "change_calls (ReadError err # rest) = change_calls rest"
  "change_calls [] = []"
  by (simp_all add: change_calls_def)

lemma change_calls_writes: "c \<in> set (change_calls reads) \<Longrightarrow> is_write c"
proof (induction reads)
  case Nil
  then show ?case by (simp add: change_calls_Cons)
next
  case (Cons x rest)
  show ?case
  proof (cases x)
    case (ReadOk ch)
    with Cons show ?thesis by (cases ch) (auto simp: change_calls_Cons)
  next
    case (ReadError err)
    with Cons show ?thesis by (simp add: change_calls_Cons)
  qed
qed

lemma on_db_result:
  assumes "on_db f (l, svc) = (r, l', svc')"
  obtains d' where "f (l, serviceDB svc) = (r, l', d')" and "svc' = svc\<lparr>serviceDB := d'\<rparr>"
  using assms by (auto simp: on_db_def split: prod.splits)

lemma IngestEvents_error: "IngestEvents m ledgerCloseMeta = Some (Some err, m') \<Longrightarrow> m' = m"
  by (auto simp: IngestEvents_def Let_def split: prod.splits option.splits)

lemma IngestTransactions_error: "IngestTransactions m ledgerCloseMeta = Some (Some err, m') \<Longrightarrow> m' = m"
  by (auto simp: IngestTransactions_def Let_def split: sum.splits option.splits)

lemma ingestLedgerCloseMeta_result:
  assumes "ingestLedgerCloseMeta ledgerCloseMeta (l, svc) = Some (res, l', svc')"
  shows "nothing_committed (serviceDB svc) (serviceDB svc')"
    and "journal svc' = journal svc"
    and "eventStore svc' = eventStore svc
         \<or> IngestEvents (eventStore svc) ledgerCloseMeta = Some (None, eventStore svc')"
    and "transactionStore svc' = transactionStore svc
         \<or> IngestEvents (eventStore svc) ledgerCloseMeta = Some (None, eventStore svc')
           \<and> IngestTransactions (transactionStore svc) ledgerCloseMeta = Some (None, transactionStore svc')"
    and "res = None \<Longrightarrow>
           IngestEvents (eventStore svc) ledgerCloseMeta = Some (None, eventStore svc')
           \<and> IngestTransactions (transactionStore svc) ledgerCloseMeta = Some (None, transactionStore svc')"
proof -
  obtain r1 l1 svc1 where o: "on_db (InsertLedger ledgerCloseMeta) (l, svc) = (r1, l1, svc1)"
    by (metis prod_cases3)
  then obtain d1 where i: "InsertLedger ledgerCloseMeta (l, serviceDB svc) = (r1, l1, d1)"
    and svc1: "svc1 = svc\<lparr>serviceDB := d1\<rparr>"
    by (rule on_db_result)
  from i have q: "nothing_committed (serviceDB svc) d1"
    unfolding InsertLedger_def by (rule tx_Exec_quiet)
  have all: "nothing_committed (serviceDB svc) (serviceDB svc') \<and> journal svc' = journal svc
    \<and> (eventStore svc' = eventStore svc
         \<or> IngestEvents (eventStore svc) ledgerCloseMeta = Some (None, eventStore svc'))
    \<and> (transactionStore svc' = transactionStore svc
         \<or> IngestEvents (eventStore svc) ledgerCloseMeta = Some (None, eventStore svc')
           \<and> IngestTransactions (transactionStore svc) ledgerCloseMeta = Some (None, transactionStore svc'))
    \<and> (res = None \<longrightarrow>
           IngestEvents (eventStore svc) ledgerCloseMeta = Some (None, eventStore svc')
           \<and> IngestTransactions (transactionStore svc) ledgerCloseMeta = Some (None, transactionStore svc'))"
  proof (cases r1)
    case (Some e)
    with assms o svc1 q show ?thesis by (auto simp: ingestLedgerCloseMeta_def)
  next
    case None
    note r1 = this
    show ?thesis
    proof (cases "IngestEvents (eventStore svc) ledgerCloseMeta")
      case None
      with assms o r1 svc1 show ?thesis by (auto simp: ingestLedgerCloseMeta_def)
    next
      case (Some p)
      obtain r2 es where p: "p = (r2, es)" by (cases p)
      show ?thesis
      proof (cases r2)
        case (Some e)
        with \<open>IngestEvents (eventStore svc) ledgerCloseMeta = Some p\<close> p
        have "es = eventStore svc" by (simp add: IngestEvents_error)
        with assms o r1 svc1 q \<open>IngestEvents (eventStore svc) ledgerCloseMeta = Some p\<close> p Some
        show ?thesis by (auto simp: ingestLedgerCloseMeta_def)
      next
        case None
        note r2 = this
        note ev = \<open>IngestEvents (eventStore svc) ledgerCloseMeta = Some p\<close> [unfolded p r2]
        show ?thesis
        proof (cases "IngestTransactions (transactionStore svc) ledgerCloseMeta")
          case None
          with assms o r1 svc1 ev show ?thesis by (auto simp: ingestLedgerCloseMeta_def)
        next
          case (Some p')
          obtain r3 ts where p': "p' = (r3, ts)" by (cases p')
          note tr = \<open>IngestTransactions (transactionStore svc) ledgerCloseMeta = Some p'\<close> [unfolded p']
          show ?thesis
          proof (cases r3)
            case (Some e)
            with tr have "ts = transactionStore svc" by (simp add: IngestTransactions_error)
            with assms o r1 svc1 q ev tr Some show ?thesis
              by (auto simp: ingestLedgerCloseMeta_def)
          next
            case None
            with assms o r1 svc1 q ev tr show ?thesis
              by (auto simp: ingestLedgerCloseMeta_def)
          qed
        qed
      qed
    qed
  qed
  from all show "nothing_committed (serviceDB svc) (serviceDB svc')" by simp
  from all show "journal svc' = journal svc" by simp
  from all show "eventStore svc' = eventStore svc
         \<or> IngestEvents (eventStore svc) ledgerCloseMeta = Some (None, eventStore svc')" by simp
  from all show "transactionStore svc' = transactionStore svc
         \<or> IngestEvents (eventStore svc) ledgerCloseMeta = Some (None, eventStore svc')
           \<and> IngestTransactions (transactionStore svc) ledgerCloseMeta = Some (None, transactionStore svc')"
    by simp
  from all show "res = None \<Longrightarrow>
           IngestEvents (eventStore svc) ledgerCloseMeta = Some (None, eventStore svc')
           \<and> IngestTransactions (transactionStore svc) ledgerCloseMeta = Some (None, transactionStore svc')"
    by simp
qed

text \<open>What a commit leaves: nothing, or the tables of the transaction at the sequence.\<close>

lemma Commit_result:
  assumes "Commit sequence (l, d) = (res, l', d')"
  shows "res \<noteq> None \<and> nothing_committed d d'
       \<or> (\<exists>evs. trace d' = trace d @ evs \<and> Committed \<in> set evs)
           \<and> metadata (committed d') latestLedgerSequenceMetaKey = Some (FormatUint (unat sequence))
           \<and> ledger_entries (committed d')
               = ledger_entries (fold apply_statement (flush_statements (keyToEntryBatch l)) (txTables l))"
proof -
  let ?l = "l\<lparr>forLedgerSequence := sequence\<rparr>"
  from assms have d: "Done (?l, d) = (res, l', d')" by (simp add: Commit_def)
  from Done_cases [OF d] consider
    (inner) err l1 db1 where "done_inner (?l, d) = (Some err, l1, db1)" "res = Some err"
      "tx_Rollback (l1, db1) = (l', d')"
  | (commit) err l1 db1 where "done_inner (?l, d) = (None, l1, db1)" "res = Some err"
      "committed d' = committed d" "hasPostWriteCommitHook d' = hasPostWriteCommitHook d"
      "trace d' = trace db1 @ [CommitFailed]"
  | (ok) l1 db1 evs where "done_inner (?l, d) = (None, l1, db1)" "committed d' = txTables l1"
      "trace d' = trace db1 @ [Committed] @ evs"
    by blast
  then show ?thesis
  proof cases
    case inner
    from done_inner_quiet [OF inner(1)] tx_Rollback_quiet(1) [OF inner(3)]
    have "nothing_committed d d'" by (rule nothing_committed_trans)
    with inner(2) show ?thesis by simp
  next
    case commit
    from done_inner_quiet [OF commit(1)] commit(3,4,5)
    have "nothing_committed d d'" by (auto simp: nothing_committed_def)
    with commit(2) show ?thesis by simp
  next
    case ok
    note i = done_inner_ok [OF ok(1)]
    from i(1) ok(3) have "\<exists>evs. trace d' = trace d @ evs \<and> Committed \<in> set evs" by simp
    moreover from i(2) ok(2)
    have "metadata (committed d') latestLedgerSequenceMetaKey = Some (FormatUint (unat sequence))"
      by simp
    moreover from i(3) ok(2)
    have "ledger_entries (committed d')
        = ledger_entries (fold apply_statement (flush_statements (keyToEntryBatch l)) (txTables l))"
      by simp
    ultimately show ?thesis by blast
  qed
qed


subsection \<open>Successful writes only execute statements\<close>




lemma ingestLedgerEntryChanges_entries:
  assumes "ingestLedgerEntryChanges xdr reads s = (None, s')"
  shows "list_all is_entry reads"
  using assms
proof (induction xdr reads s rule: ingestLedgerEntryChanges.induct)
  case (1 xdr s)
  then show ?case by simp
next
  case (2 xdr err rest s)
  then show ?case by simp
next
  case (3 xdr key entry rest s)
  obtain e1 s1 where u: "UpsertLedgerEntry xdr key entry s = (e1, s1)"
    by (cases "UpsertLedgerEntry xdr key entry s")
  with "3.prems" have e1: "e1 = None" by (cases e1) simp_all
  with "3.prems" u have "ingestLedgerEntryChanges xdr rest s1 = (None, s')" by simp
  from "3.IH" [OF u [unfolded e1, symmetric] refl this] show ?case by simp
next
  case (4 xdr key rest s)
  obtain e1 s1 where u: "DeleteLedgerEntry xdr key s = (e1, s1)"
    by (cases "DeleteLedgerEntry xdr key s")
  with "4.prems" have e1: "e1 = None" by (cases e1) simp_all
  with "4.prems" u have "ingestLedgerEntryChanges xdr rest s1 = (None, s')" by simp
  from "4.IH" [OF u [unfolded e1, symmetric] refl this] show ?case by simp
qed



subsection \<open>Ingesting one ledger\<close>

lemma new_events_append: "trace d' = trace d @ evs \<Longrightarrow> new_events d d' = evs"
  by (simp add: new_events_def)

lemma nothing_committed_trace:
  "nothing_committed d d' \<Longrightarrow> \<exists>evs. trace d' = trace d @ evs"
  by (auto simp: nothing_committed_def)

lemma ingest_in_tx_result:
  assumes "ingest_in_tx env ledgerCloseMeta sequence (l, svc) = Some (res, l', svc')"
  shows "journal svc' = journal svc"
    and "eventStore svc' = eventStore svc \<or> events_applied ledgerCloseMeta svc svc'"
    and "transactionStore svc' = transactionStore svc
         \<or> events_applied ledgerCloseMeta svc svc' \<and> transactions_applied ledgerCloseMeta svc svc'"
    and "res \<noteq> None \<and> nothing_committed (serviceDB svc) (serviceDB svc')
         \<or> events_applied ledgerCloseMeta svc svc' \<and> transactions_applied ledgerCloseMeta svc svc'
           \<and> (\<exists>evs. trace (serviceDB svc') = trace (serviceDB svc) @ evs \<and> Committed \<in> set evs)
           \<and> metadata (committed (serviceDB svc')) latestLedgerSequenceMetaKey
               = Some (FormatUint (unat sequence))"
proof -
  let ?P = "journal svc' = journal svc
    \<and> (eventStore svc' = eventStore svc \<or> events_applied ledgerCloseMeta svc svc')
    \<and> (transactionStore svc' = transactionStore svc
         \<or> events_applied ledgerCloseMeta svc svc' \<and> transactions_applied ledgerCloseMeta svc svc')
    \<and> (res \<noteq> None \<and> nothing_committed (serviceDB svc) (serviceDB svc')
         \<or> events_applied ledgerCloseMeta svc svc' \<and> transactions_applied ledgerCloseMeta svc svc'
           \<and> (\<exists>evs. trace (serviceDB svc') = trace (serviceDB svc) @ evs \<and> Committed \<in> set evs)
           \<and> metadata (committed (serviceDB svc')) latestLedgerSequenceMetaKey
               = Some (FormatUint (unat sequence)))"
  obtain r1 l1 svc1 where o: "on_db (ingestLedgerEntryChanges (xdrCodec env) (changeReads ledgerCloseMeta)) (l, svc) = (r1, l1, svc1)"
    by (metis prod_cases3)
  then obtain d1 where i: "ingestLedgerEntryChanges (xdrCodec env) (changeReads ledgerCloseMeta) (l, serviceDB svc) = (r1, l1, d1)"
    and svc1: "svc1 = svc\<lparr>serviceDB := d1\<rparr>"
    by (rule on_db_result)
  from i have q1: "nothing_committed (serviceDB svc) d1" by (rule ingestLedgerEntryChanges_quiet)
  have ?P
  proof (cases r1)
    case (Some e)
    with assms o have "res = Some e" "svc' = svc1" by (simp_all add: ingest_in_tx_def)
    with svc1 q1 show ?thesis by simp
  next
    case None
    note r1 = this
    show ?thesis
    proof (cases "changeReaderCloseError ledgerCloseMeta")
      case (Some e)
      with assms o r1 have "res = Some e" "svc' = svc1" by (simp_all add: ingest_in_tx_def)
      with svc1 q1 show ?thesis by simp
    next
      case None
      note cl = this
      show ?thesis
      proof (cases "ingestLedgerCloseMeta ledgerCloseMeta (l1, svc1)")
        case None
        with assms o r1 cl show ?thesis by (simp add: ingest_in_tx_def)
      next
        case (Some p)
        obtain r2 l2 svc2 where p: "p = (r2, l2, svc2)" by (cases p)
        note m = ingestLedgerCloseMeta_result [OF Some [unfolded p]]
        from m(1) q1 svc1 have q2: "nothing_committed (serviceDB svc) (serviceDB svc2)"
          using nothing_committed_trans by fastforce
        from m(2-4) svc1 have st2: "journal svc2 = journal svc"
          "eventStore svc2 = eventStore svc \<or> events_applied ledgerCloseMeta svc svc2"
          "transactionStore svc2 = transactionStore svc
           \<or> events_applied ledgerCloseMeta svc svc2 \<and> transactions_applied ledgerCloseMeta svc svc2"
          by (simp_all add: events_applied_def transactions_applied_def)
        show ?thesis
        proof (cases r2)
          case (Some e)
          with assms o r1 cl \<open>ingestLedgerCloseMeta ledgerCloseMeta (l1, svc1) = Some p\<close> p
          have "res = Some e" "svc' = svc2" by (simp_all add: ingest_in_tx_def)
          with q2 st2 show ?thesis by simp
        next
          case None
          with m(5) svc1 have ap2: "events_applied ledgerCloseMeta svc svc2"
            "transactions_applied ledgerCloseMeta svc svc2"
            by (simp_all add: events_applied_def transactions_applied_def)
          from assms o r1 cl \<open>ingestLedgerCloseMeta ledgerCloseMeta (l1, svc1) = Some p\<close> p None
          have "on_db (Commit sequence) (l2, svc2) = (res, l', svc')"
            by (simp add: ingest_in_tx_def)
          then obtain d3 where c: "Commit sequence (l2, serviceDB svc2) = (res, l', d3)"
            and svc': "svc' = svc2\<lparr>serviceDB := d3\<rparr>"
            by (rule on_db_result)
          from svc' ap2 st2 have st3: "journal svc' = journal svc"
            "events_applied ledgerCloseMeta svc svc'" "transactions_applied ledgerCloseMeta svc svc'"
            by (simp_all add: events_applied_def transactions_applied_def)
          from Commit_result [OF c]
          have "res \<noteq> None \<and> nothing_committed (serviceDB svc) (serviceDB svc')
            \<or> (\<exists>evs. trace (serviceDB svc') = trace (serviceDB svc) @ evs \<and> Committed \<in> set evs)
              \<and> metadata (committed (serviceDB svc')) latestLedgerSequenceMetaKey
                  = Some (FormatUint (unat sequence))"
          proof (elim disjE conjE exE)
            assume "res \<noteq> None" "nothing_committed (serviceDB svc2) d3"
            with q2 svc' show ?thesis using nothing_committed_trans by fastforce
          next
            fix evs
            assume t: "trace d3 = trace (serviceDB svc2) @ evs" "Committed \<in> set evs"
              and md: "metadata (committed d3) latestLedgerSequenceMetaKey = Some (FormatUint (unat sequence))"
            from nothing_committed_trace [OF q2] obtain evs0
              where "trace (serviceDB svc2) = trace (serviceDB svc) @ evs0" ..
            with t svc' have "trace (serviceDB svc') = trace (serviceDB svc) @ (evs0 @ evs)"
              "Committed \<in> set (evs0 @ evs)" by simp_all
            with md svc' show ?thesis by fastforce
          qed
          with st3 show ?thesis by blast
        qed
      qed
    qed
  qed
  then show "journal svc' = journal svc"
    and "eventStore svc' = eventStore svc \<or> events_applied ledgerCloseMeta svc svc'"
    and "transactionStore svc' = transactionStore svc
         \<or> events_applied ledgerCloseMeta svc svc' \<and> transactions_applied ledgerCloseMeta svc svc'"
    and "res \<noteq> None \<and> nothing_committed (serviceDB svc) (serviceDB svc')
         \<or> events_applied ledgerCloseMeta svc svc' \<and> transactions_applied ledgerCloseMeta svc svc'
           \<and> (\<exists>evs. trace (serviceDB svc') = trace (serviceDB svc) @ evs \<and> Committed \<in> set evs)
           \<and> metadata (committed (serviceDB svc')) latestLedgerSequenceMetaKey
               = Some (FormatUint (unat sequence))"
    by blast+
qed

subsection \<open>What a commit of \<open>ingest\<close> has written\<close>

lemma note_event_fields [simp]:
  "serviceDB (note_event ev s) = serviceDB s"
  "eventStore (note_event ev s) = eventStore s"
  "transactionStore (note_event ev s) = transactionStore s"
  "journal (note_event ev s) = journal s @ [ev]"
  by (simp_all add: note_event_def)

lemma InsertLedger_ok:
  assumes "InsertLedger ledgerCloseMeta (l, d) = (None, l', d')"
  shows "l' = l"
    and "trace d' = trace d @ [Executed (InsertLedgerCloseMeta (LedgerSequence ledgerCloseMeta))]"
  using tx_Exec_ok [OF assms [unfolded InsertLedger_def]] by simp_all

lemma InsertLedger_quiet:
  assumes "InsertLedger ledgerCloseMeta (l, d) = (r, l', d')"
  shows "nothing_committed d d'"
  using assms unfolding InsertLedger_def by (rule tx_Exec_quiet)

lemma ingestLedgerCloseMeta_insert:
  assumes "ingestLedgerCloseMeta ledgerCloseMeta (l, svc) = Some (None, l', svc')"
  shows "InsertLedger ledgerCloseMeta (l, serviceDB svc) = (None, l', serviceDB svc')"
  using assms
  by (auto simp: ingestLedgerCloseMeta_def on_db_def split: prod.splits option.splits)

text \<open>Either \<open>ingest\<close> fails before its commit, or it has come to the commit.\<close>

lemma ingest_in_tx_commit:
  assumes it: "ingest_in_tx env ledgerCloseMeta sequence (l, svc) = Some (res, l', svc')"
  shows "res \<noteq> None \<and> nothing_committed (serviceDB svc) (serviceDB svc')
       \<or> (\<exists>l1 d1 d2.
             ingestLedgerEntryChanges (xdrCodec env) (changeReads ledgerCloseMeta) (l, serviceDB svc)
               = (None, l1, d1)
             \<and> InsertLedger ledgerCloseMeta (l1, d1) = (None, l1, d2)
             \<and> Commit sequence (l1, d2) = (res, l', serviceDB svc'))"
proof -
  obtain r1 l1 svc1 where o: "on_db (ingestLedgerEntryChanges (xdrCodec env) (changeReads ledgerCloseMeta)) (l, svc) = (r1, l1, svc1)"
    by (metis prod_cases3)
  then obtain d1 where i: "ingestLedgerEntryChanges (xdrCodec env) (changeReads ledgerCloseMeta) (l, serviceDB svc) = (r1, l1, d1)"
    and svc1: "svc1 = svc\<lparr>serviceDB := d1\<rparr>"
    by (rule on_db_result)
  from i have q1: "nothing_committed (serviceDB svc) d1" by (rule ingestLedgerEntryChanges_quiet)
  show ?thesis
  proof (cases r1)
    case (Some e)
    with it o have "res = Some e" "svc' = svc1" by (simp_all add: ingest_in_tx_def)
    with svc1 q1 show ?thesis by simp
  next
    case None
    note r1 = this
    show ?thesis
    proof (cases "changeReaderCloseError ledgerCloseMeta")
      case (Some e)
      with it o r1 have "res = Some e" "svc' = svc1" by (simp_all add: ingest_in_tx_def)
      with svc1 q1 show ?thesis by simp
    next
      case None
      note cl = this
      show ?thesis
      proof (cases "ingestLedgerCloseMeta ledgerCloseMeta (l1, svc1)")
        case None
        with it o r1 cl show ?thesis by (simp add: ingest_in_tx_def)
      next
        case (Some p)
        obtain r2 l2 svc2 where p: "p = (r2, l2, svc2)" by (cases p)
        note m = ingestLedgerCloseMeta_result(1) [OF Some [unfolded p]]
        from m q1 svc1 have q2: "nothing_committed (serviceDB svc) (serviceDB svc2)"
          using nothing_committed_trans by fastforce
        show ?thesis
        proof (cases r2)
          case (Some e)
          with it o r1 cl \<open>ingestLedgerCloseMeta ledgerCloseMeta (l1, svc1) = Some p\<close> p
          have "res = Some e" "svc' = svc2" by (simp_all add: ingest_in_tx_def)
          with q2 show ?thesis by simp
        next
          case None
          note ins = ingestLedgerCloseMeta_insert
            [OF \<open>ingestLedgerCloseMeta ledgerCloseMeta (l1, svc1) = Some p\<close> [unfolded p None]]
          from ins svc1 have ins': "InsertLedger ledgerCloseMeta (l1, d1) = (None, l2, serviceDB svc2)"
            by simp
          from InsertLedger_ok(1) [OF ins'] have l2: "l2 = l1" .
          from it o r1 cl \<open>ingestLedgerCloseMeta ledgerCloseMeta (l1, svc1) = Some p\<close> p None
          have "on_db (Commit sequence) (l2, svc2) = (res, l', svc')"
            by (simp add: ingest_in_tx_def)
          then obtain d3 where c: "Commit sequence (l2, serviceDB svc2) = (res, l', d3)"
            and svc': "svc' = svc2\<lparr>serviceDB := d3\<rparr>"
            by (rule on_db_result)
          from svc' c l2 have "Commit sequence (l1, serviceDB svc2) = (res, l', serviceDB svc')"
            by simp
          with i r1 ins' l2 show ?thesis by blast
        qed
      qed
    qed
  qed
qed

text \<open>
  When a transaction opened by \<open>NewTx\<close> has committed in \<open>ingest\<close>, it has read every
  change, written the ledger close record, and left in the committed table what the
  last change on each key leaves.
\<close>

lemma ingest_in_tx_applied:
  assumes n: "NewTx b d = (Inr tx, d1)"
    and it: "ingest_in_tx env ledgerCloseMeta sequence (tx, svc) = Some (res, l', svc')"
    and db: "serviceDB svc = d1"
    and tr: "trace (serviceDB svc') = trace d1 @ evs" and com: "Committed \<in> set evs"
  shows "list_all is_entry (changeReads ledgerCloseMeta)"
    and "Executed (InsertLedgerCloseMeta (LedgerSequence ledgerCloseMeta)) \<in> set evs"
    and "ledger_entries (committed (serviceDB svc')) k =
           (case last_on_row (xdrCodec env) k (change_calls (changeReads ledgerCloseMeta)) of
              None \<Rightarrow> ledger_entries (committed d) k
            | Some c \<Rightarrow> row_after (xdrCodec env) c)"
proof -
  let ?xdr = "xdrCodec env" and ?reads = "changeReads ledgerCloseMeta"
  have evs: "new_events d1 (serviceDB svc') = evs" using tr by (rule new_events_append)
  have "\<not> nothing_committed d1 (serviceDB svc')"
    using nothing_committed_new_events [of d1 "serviceDB svc'"] com evs by auto
  with ingest_in_tx_commit [OF it] db obtain l1 d2 d3
    where i: "ingestLedgerEntryChanges ?xdr ?reads (tx, d1) = (None, l1, d2)"
      and ins: "InsertLedger ledgerCloseMeta (l1, d2) = (None, l1, d3)"
      and c: "Commit sequence (l1, d3) = (res, l', serviceDB svc')"
    by auto
  from i show "list_all is_entry ?reads" by (rule ingestLedgerEntryChanges_entries)
  note q2 = ingestLedgerEntryChanges_quiet [OF i]
  note q3 = InsertLedger_quiet [OF ins]
  from nothing_committed_trace [OF q2] obtain e2 where t2: "trace d2 = trace d1 @ e2" ..
  note t3 = InsertLedger_ok(2) [OF ins]
  have q13: "nothing_committed d1 d3" using q2 q3 by (rule nothing_committed_trans)
  have nq: "\<not> nothing_committed d3 (serviceDB svc')"
  proof
    assume "nothing_committed d3 (serviceDB svc')"
    with q13 have "nothing_committed d1 (serviceDB svc')" by (rule nothing_committed_trans)
    with \<open>\<not> nothing_committed d1 (serviceDB svc')\<close> show False by simp
  qed
  with Commit_result [OF c] obtain e4
    where t4: "trace (serviceDB svc') = trace d3 @ e4"
      and rows: "ledger_entries (committed (serviceDB svc'))
          = ledger_entries (fold apply_statement (flush_statements (keyToEntryBatch l1)) (txTables l1))"
    by auto
  from t2 t3 t4 tr have "evs = e2 @ [Executed (InsertLedgerCloseMeta (LedgerSequence ledgerCloseMeta))] @ e4"
    by simp
  then show "Executed (InsertLedgerCloseMeta (LedgerSequence ledgerCloseMeta)) \<in> set evs" by simp
  note t = NewTx_result(2) [OF n refl]
  have d0: "distinct (map fst (keyToEntryBatch tx))" using t by simp
  have ws: "\<forall>c \<in> set (change_calls ?reads). is_write c"
    using change_calls_writes by blast
  note w = call_all_writes [OF d0 ws ingestLedgerEntryChanges_calls [OF i]]
  from w [of undefined] have d1': "distinct (map fst (keyToEntryBatch l1))" by simp
  have "ledger_entries (committed (serviceDB svc')) k = tx_view l1 k"
    by (simp add: rows flush_statements_apply [OF d1'] tx_view_def)
  also have "\<dots> = (case last_on_row ?xdr k (change_calls ?reads) of
      None \<Rightarrow> tx_view tx k | Some c \<Rightarrow> row_after ?xdr c)"
    using w [of k] by simp
  finally show "ledger_entries (committed (serviceDB svc')) k =
           (case last_on_row ?xdr k (change_calls ?reads) of
              None \<Rightarrow> ledger_entries (committed d) k
            | Some c \<Rightarrow> row_after ?xdr c)"
    using t by (simp add: tx_view_def split: option.splits)
qed

text \<open>
  Once the event store has appended the bucket of the ledger, \<open>ingest\<close> returns with
  that bucket in the store whatever the later steps return, and likewise for the
  transaction store.
\<close>

lemma ingest_keeps_buckets:
  assumes ing: "ingest env sequence svc = Some (res, svc')"
    and reach: "reaches_event_store env sequence svc"
    and gl: "GetLedger env sequence = Inr m"
    and ev: "IngestEvents (eventStore svc) m = Some (None, es)"
  shows "eventStore svc' = es"
    and "IngestTransactions (transactionStore svc) m = Some (Some err, ts) \<Longrightarrow>
           res = Some err \<and> transactionStore svc' = transactionStore svc"
    and "IngestTransactions (transactionStore svc) m = Some (None, ts) \<Longrightarrow>
           transactionStore svc' = ts"
proof -
  let ?svc = "note_event (StartedIngest sequence) svc"
  from reach gl have cr: "changeReaderError m = None"
    by (simp add: reaches_event_store_def)
  obtain r1 d1 where n: "NewTx (writeBatchSize env) (serviceDB svc) = (r1, d1)"
    by (cases "NewTx (writeBatchSize env) (serviceDB svc)")
  with reach gl obtain tx where r1: "r1 = Inr tx"
    by (cases r1) (simp_all add: reaches_event_store_def)
  obtain r2 l2 d2
    where i: "ingestLedgerEntryChanges (xdrCodec env) (changeReads m) (tx, d1) = (r2, l2, d2)"
    by (metis prod_cases3)
  with reach gl n r1 have r2: "r2 = None" by (cases r2) (simp_all add: reaches_event_store_def)
  from reach gl n r1 i r2 have cl: "changeReaderCloseError m = None"
    and f: "fst (InsertLedger m (l2, d2)) = None"
    by (simp_all add: reaches_event_store_def)
  obtain r3 l3 d3 where ins: "InsertLedger m (l2, d2) = (r3, l3, d3)"
    by (metis prod_cases3)
  with f have r3: "r3 = None" by simp
  let ?svc3 = "?svc\<lparr>serviceDB := d3\<rparr>"
  have lcm: "ingestLedgerCloseMeta m (l2, ?svc\<lparr>serviceDB := d2\<rparr>) =
      (case IngestTransactions (transactionStore svc) m of
         None \<Rightarrow> None
       | Some (Some err, ts) \<Rightarrow> Some (Some err, l3, ?svc3\<lparr>eventStore := es, transactionStore := ts\<rparr>)
       | Some (None, ts) \<Rightarrow> Some (None, l3, ?svc3\<lparr>eventStore := es, transactionStore := ts\<rparr>))"
    using ins r3 ev by (simp add: ingestLedgerCloseMeta_def on_db_def)
  have itx: "ingest_in_tx env m sequence (tx, ?svc\<lparr>serviceDB := d1\<rparr>) =
      (case IngestTransactions (transactionStore svc) m of
         None \<Rightarrow> None
       | Some (Some err, ts) \<Rightarrow> Some (Some err, l3, ?svc3\<lparr>eventStore := es, transactionStore := ts\<rparr>)
       | Some (None, ts) \<Rightarrow>
           Some (on_db (Commit sequence) (l3, ?svc3\<lparr>eventStore := es, transactionStore := ts\<rparr>)))"
    using i r2 cl lcm
    by (simp add: ingest_in_tx_def on_db_def split: option.splits prod.splits)
  have whole: "ingest env sequence svc =
      (case ingest_in_tx env m sequence (tx, ?svc\<lparr>serviceDB := d1\<rparr>) of
         None \<Rightarrow> None
       | Some (r, l4, svc4) \<Rightarrow> Some (r, svc4\<lparr>serviceDB := snd (Rollback (l4, serviceDB svc4))\<rparr>))"
    using gl cr n r1 by (simp add: ingest_def Let_def)
  obtain p where tr: "IngestTransactions (transactionStore svc) m = Some p"
    using ing whole itx by (cases "IngestTransactions (transactionStore svc) m") simp_all
  obtain r5 ts5 where p: "p = (r5, ts5)" by (cases p)
  have both: "eventStore svc' = es \<and> transactionStore svc' = ts5 \<and> (r5 \<noteq> None \<longrightarrow> res = r5)"
  proof (cases r5)
    case (Some e)
    with ing whole itx tr p show ?thesis by auto
  next
    case None
    obtain r6 l6 d6 where c: "Commit sequence (l3, d3) = (r6, l6, d6)"
      by (metis prod_cases3)
    with ing whole itx tr p None show ?thesis by (auto simp: on_db_def)
  qed
  from both show "eventStore svc' = es" by simp
  show "res = Some err \<and> transactionStore svc' = transactionStore svc"
    if "IngestTransactions (transactionStore svc) m = Some (Some err, ts)"
  proof -
    from that have "ts = transactionStore svc" by (rule IngestTransactions_error)
    with that tr p both show ?thesis by auto
  qed
  show "transactionStore svc' = ts"
    if "IngestTransactions (transactionStore svc) m = Some (None, ts)"
    using that tr p both by auto
qed

lemma returned_pair: "x \<noteq> None \<Longrightarrow> x = Some (fst (the x), snd (the x))"
  by auto

lemma returned_no_error: "x \<noteq> None \<Longrightarrow> fst (the x) = None \<Longrightarrow> x = Some (None, snd (the x))"
  by (cases x) auto

lemma not_applied_when_quiet:
  "nothing_committed (serviceDB svc) (serviceDB svc') \<Longrightarrow> \<not> all_applied env sequence svc svc'"
  by (auto simp: all_applied_def entries_applied_def nothing_committed_new_events split: sum.splits)

text \<open>
  C1, as the code has it. When \<open>ingest\<close> returns for ledger N: it returns no error only
  when all three stores have applied N (the entry store: the ledger close record and
  every change of N are in the committed tables and N is the latest sequence); the entry
  store has either applied N, after the event store and the transaction store have, or
  committed nothing; the transaction store changes only by applying N after the event
  store has; the event store changes only by applying N. Nothing undoes what the two
  in-memory stores have applied: once the steps before the event store have succeeded and
  the event store has appended N's bucket, the bucket is in the store when \<open>ingest\<close>
  returns, also when the transaction store then fails, and so is the bucket of the
  transaction store, whatever the commit returns.
\<close>

theorem C1_ingest_advances_stores:
  assumes "ingest env sequence svc = Some (res, svc')"
  shows "(res = None \<longrightarrow> all_applied env sequence svc svc')
       \<and> (all_applied env sequence svc svc'
            \<or> nothing_committed (serviceDB svc) (serviceDB svc'))
       \<and> (transactionStore svc' \<noteq> transactionStore svc \<longrightarrow>
            (\<exists>m. GetLedger env sequence = Inr m
                 \<and> events_applied m svc svc' \<and> transactions_applied m svc svc'))
       \<and> (eventStore svc' \<noteq> eventStore svc \<longrightarrow>
            (\<exists>m. GetLedger env sequence = Inr m \<and> events_applied m svc svc'))
       \<and> (\<forall>m es. reaches_event_store env sequence svc \<and> GetLedger env sequence = Inr m
              \<and> IngestEvents (eventStore svc) m = Some (None, es) \<longrightarrow>
            eventStore svc' = es
            \<and> (\<forall>err ts. IngestTransactions (transactionStore svc) m = Some (Some err, ts) \<longrightarrow>
                  res = Some err \<and> transactionStore svc' = transactionStore svc
                  \<and> nothing_committed (serviceDB svc) (serviceDB svc'))
            \<and> (\<forall>ts. IngestTransactions (transactionStore svc) m = Some (None, ts) \<longrightarrow>
                  transactionStore svc' = ts))"
proof -
  let ?svc = "note_event (StartedIngest sequence) svc"
  have first: "(res = None \<longrightarrow> all_applied env sequence svc svc')
       \<and> (all_applied env sequence svc svc'
            \<or> nothing_committed (serviceDB svc) (serviceDB svc'))
       \<and> (transactionStore svc' \<noteq> transactionStore svc \<longrightarrow>
            (\<exists>m. GetLedger env sequence = Inr m
                 \<and> events_applied m svc svc' \<and> transactions_applied m svc svc'))
       \<and> (eventStore svc' \<noteq> eventStore svc \<longrightarrow>
            (\<exists>m. GetLedger env sequence = Inr m \<and> events_applied m svc svc'))"
    (is ?first)
  proof -
    have quiet: ?first
      if "res \<noteq> None" "nothing_committed (serviceDB svc) (serviceDB svc')"
        "eventStore svc' = eventStore svc" "transactionStore svc' = transactionStore svc"
      using that by auto
    show ?thesis
    proof (cases "GetLedger env sequence")
      case (Inl err)
      with assms have "res = Some err" "svc' = ?svc" by (simp_all add: ingest_def Let_def)
      then show ?thesis by (intro quiet) simp_all
    next
      case (Inr m)
      note gl = this
      show ?thesis
      proof (cases "changeReaderError m")
        case (Some err)
        with assms gl have "res = Some err" "svc' = ?svc" by (simp_all add: ingest_def Let_def)
        then show ?thesis by (intro quiet) simp_all
      next
        case None
        note cr = this
        obtain r1 d1 where n: "NewTx (writeBatchSize env) (serviceDB svc) = (r1, d1)"
          by (cases "NewTx (writeBatchSize env) (serviceDB svc)")
        note q1 = NewTx_result(1) [OF n]
        show ?thesis
        proof (cases r1)
          case (Inl err)
          with assms gl cr n have "res = Some err" "svc' = ?svc\<lparr>serviceDB := d1\<rparr>"
            by (simp_all add: ingest_def Let_def)
          with q1 show ?thesis by (intro quiet) simp_all
        next
          case (Inr tx)
          let ?svc1 = "?svc\<lparr>serviceDB := d1\<rparr>"
          from assms gl cr n Inr obtain l2 svc2
            where it: "ingest_in_tx env m sequence (tx, ?svc1) = Some (res, l2, svc2)"
              and svc': "svc' = svc2\<lparr>serviceDB := snd (Rollback (l2, serviceDB svc2))\<rparr>"
            by (auto simp: ingest_def Let_def split: option.splits)
          obtain l3 d3 where rb: "tx_Rollback (l2, serviceDB svc2) = (l3, d3)"
            by (cases "tx_Rollback (l2, serviceDB svc2)")
          with svc' have svc'': "svc' = svc2\<lparr>serviceDB := d3\<rparr>" by (simp add: Rollback_def)
          note q3 = tx_Rollback_quiet(1) [OF rb]
          note r = ingest_in_tx_result [OF it]
          from r(2) svc'' have ev: "eventStore svc' = eventStore svc \<or> events_applied m svc svc'"
            by (simp add: events_applied_def)
          from r(3) svc'' have tr: "transactionStore svc' = transactionStore svc
             \<or> events_applied m svc svc' \<and> transactions_applied m svc svc'"
            by (simp add: events_applied_def transactions_applied_def)
          from r(4) show ?thesis
          proof (elim disjE conjE exE)
            assume "res \<noteq> None" and "nothing_committed (serviceDB ?svc1) (serviceDB svc2)"
            with q1 q3 svc'' have qq: "nothing_committed (serviceDB svc) (serviceDB svc')"
              using nothing_committed_trans by fastforce
            with \<open>res \<noteq> None\<close> ev tr gl show ?thesis by auto
          next
            fix evs
            assume ap: "events_applied m ?svc1 svc2" "transactions_applied m ?svc1 svc2"
              and t: "trace (serviceDB svc2) = trace (serviceDB ?svc1) @ evs" "Committed \<in> set evs"
              and md: "metadata (committed (serviceDB svc2)) latestLedgerSequenceMetaKey
                  = Some (FormatUint (unat sequence))"
            from ap svc'' have ap': "events_applied m svc svc'" "transactions_applied m svc svc'"
              by (simp_all add: events_applied_def transactions_applied_def)
            from t(1) have t': "trace (serviceDB svc2) = trace d1 @ evs" by simp
            note en = ingest_in_tx_applied [OF n [unfolded Inr] it _ t' t(2)]
            from nothing_committed_trace [OF q1] obtain evs0
              where "trace d1 = trace (serviceDB svc) @ evs0" ..
            moreover from nothing_committed_trace [OF q3] obtain evs3
              where "trace d3 = trace (serviceDB svc2) @ evs3" ..
            ultimately have "trace (serviceDB svc') = trace (serviceDB svc) @ (evs0 @ evs @ evs3)"
              using t svc'' by simp
            then have ne: "new_events (serviceDB svc) (serviceDB svc') = evs0 @ evs @ evs3"
              by (rule new_events_append)
            with t(2) have c: "Committed \<in> set (new_events (serviceDB svc) (serviceDB svc'))"
              by simp
            from ne en(2) have il: "Executed (InsertLedgerCloseMeta (LedgerSequence m))
                \<in> set (new_events (serviceDB svc) (serviceDB svc'))"
              by simp
            from q3 svc'' have same: "committed (serviceDB svc') = committed (serviceDB svc2)"
              by (simp add: nothing_committed_def)
            have rows: "ledger_entries (committed (serviceDB svc')) k =
                (case last_on_row (xdrCodec env) k (change_calls (changeReads m)) of
                   None \<Rightarrow> ledger_entries (committed (serviceDB svc)) k
                 | Some c \<Rightarrow> row_after (xdrCodec env) c)" for k
              unfolding same using en(3) [of k] by simp
            from md same have "metadata (committed (serviceDB svc'\<lparr>faults := []\<rparr>)) latestLedgerSequenceMetaKey
                  = Some (FormatUint (unat sequence))"
              by simp
            then have "fst (GetLatestLedgerSequence (serviceDB svc'\<lparr>faults := []\<rparr>)) = Some (Inr sequence)"
              by (rule GetLatestLedgerSequence_found) simp
            with c il en(1) rows have "entries_applied (xdrCodec env) m sequence svc svc'"
              by (simp add: entries_applied_def)
            with ap' gl have "all_applied env sequence svc svc'" by (simp add: all_applied_def)
            with ap' gl show ?thesis by simp
          qed
        qed
      qed
    qed
  qed
  have kept: "eventStore svc' = es
            \<and> (\<forall>err ts. IngestTransactions (transactionStore svc) m = Some (Some err, ts) \<longrightarrow>
                  res = Some err \<and> transactionStore svc' = transactionStore svc
                  \<and> nothing_committed (serviceDB svc) (serviceDB svc'))
            \<and> (\<forall>ts. IngestTransactions (transactionStore svc) m = Some (None, ts) \<longrightarrow>
                  transactionStore svc' = ts)"
    if h: "reaches_event_store env sequence svc \<and> GetLedger env sequence = Inr m
              \<and> IngestEvents (eventStore svc) m = Some (None, es)" for m es
  proof -
    from h have reach: "reaches_event_store env sequence svc" and gl: "GetLedger env sequence = Inr m"
      and ev: "IngestEvents (eventStore svc) m = Some (None, es)"
      by simp_all
    note k = ingest_keeps_buckets [OF assms reach gl ev]
    have "res = Some err \<and> transactionStore svc' = transactionStore svc
          \<and> nothing_committed (serviceDB svc) (serviceDB svc')"
      if f: "IngestTransactions (transactionStore svc) m = Some (Some err, ts)" for err ts
    proof -
      from f have "\<not> transactions_applied m svc svc'" by (simp add: transactions_applied_def)
      with gl have "\<not> all_applied env sequence svc svc'" by (simp add: all_applied_def)
      with first have "nothing_committed (serviceDB svc) (serviceDB svc')" by blast
      with k(2) [OF f] show ?thesis by simp
    qed
    with k(1) k(3) show ?thesis by blast
  qed
  from first kept show ?thesis by blast
qed

lemma backend6_fields:
  "GetLedger backend6 6 = Inr meta6" "xdrCodec backend6 = string_codec"
  "GetRootHAS backend6 = Inr 5" "PrepareRange backend6 (5 + 1) = None"
  "NewCheckpointChangeReader backend6 5
     = Inr ([ReadOk (Upserted ''a'' ''1''), ReadOk (Upserted ''b'' ''2'')], None)"
  by (simp_all add: backend6_def)

lemma ingest6_returns: "ingest backend6 6 service345_sound \<noteq> None"
  by code_simp

lemma ingest6_no_error: "fst (the (ingest backend6 6 service345_sound)) = None"
  by code_simp

lemma ingest6_failing_returns: "ingest backend6 6 service345 \<noteq> None"
  by code_simp

lemma ingest6_reaches: "reaches_event_store backend6 6 service345"
  by code_simp

lemma events6_applied:
  "IngestEvents (eventStore service345) meta6
     = Some (None, snd (the (IngestEvents (eventStore service345) meta6)))"
proof -
  have "IngestEvents (eventStore service345) meta6 \<noteq> None"
    and "fst (the (IngestEvents (eventStore service345) meta6)) = None"
    by code_simp+
  then show ?thesis by (rule returned_no_error)
qed

lemma transactions6_applied:
  "IngestTransactions (transactionStore service345) meta6
     = Some (None, snd (the (IngestTransactions (transactionStore service345) meta6)))"
proof -
  have "IngestTransactions (transactionStore service345) meta6 \<noteq> None"
    and "fst (the (IngestTransactions (transactionStore service345) meta6)) = None"
    by code_simp+
  then show ?thesis by (rule returned_no_error)
qed

lemma FormatUint_5: "FormatUint 5 = ''5''"
  by (simp add: FormatUint.simps digit_char_def) code_simp

lemma row5_after_failure:
  "metadata (committed (serviceDB (snd (the (ingest backend6 6 service345))))) latestLedgerSequenceMetaKey
     = Some ''5''"
  by code_simp

lemma latest5_after_failure:
  "fst (GetLatestLedgerSequence
         (serviceDB (snd (the (ingest backend6 6 service345)))\<lparr>faults := []\<rparr>))
     = Some (Inr 5)"
  by (rule GetLatestLedgerSequence_found) (simp_all add: row5_after_failure FormatUint_5)

lemma last_on_k1:
  "last_on_row string_codec ''k1'' (change_calls (changeReads meta6))
     = Some (CallUpsert ''k1'' ''e1'')"
  by (simp add: meta6_def change_calls_def last_on_row_def string_codec_def encodeLedgerKey_def)

theorem C1_ingest_advances_stores_witness:
  "all_applied backend6 6 service345_sound (snd (the (ingest backend6 6 service345_sound)))
   \<and> ledger_entries (committed (serviceDB (snd (the (ingest backend6 6 service345_sound))))) ''k1''
       = Some ''e1''
   \<and> eventStore (snd (the (ingest backend6 6 service345)))
       = snd (the (IngestEvents (eventStore service345) meta6))
   \<and> transactionStore (snd (the (ingest backend6 6 service345)))
       = snd (the (IngestTransactions (transactionStore service345) meta6))"
proof -
  let ?svc' = "snd (the (ingest backend6 6 service345_sound))"
  note a = C1_ingest_advances_stores [OF returned_pair [OF ingest6_returns], THEN conjunct1]
  with ingest6_no_error have ap: "all_applied backend6 6 service345_sound ?svc'" by blast
  then have "entries_applied string_codec meta6 6 service345_sound ?svc'"
    by (simp add: all_applied_def backend6_fields)
  then have "ledger_entries (committed (serviceDB ?svc')) ''k1''
      = row_after string_codec (CallUpsert ''k1'' ''e1'')"
    unfolding entries_applied_def using last_on_k1 by simp
  then have row: "ledger_entries (committed (serviceDB ?svc')) ''k1'' = Some ''e1''"
    by (simp add: string_codec_def)
  note b = C1_ingest_advances_stores [OF returned_pair [OF ingest6_failing_returns],
      THEN conjunct2, THEN conjunct2, THEN conjunct2, THEN conjunct2, THEN spec, THEN spec, THEN mp,
      OF conjI [OF ingest6_reaches conjI [OF backend6_fields(1) events6_applied]]]
  from b transactions6_applied
  have "eventStore (snd (the (ingest backend6 6 service345)))
       = snd (the (IngestEvents (eventStore service345) meta6))"
    and "transactionStore (snd (the (ingest backend6 6 service345)))
       = snd (the (IngestTransactions (transactionStore service345) meta6))"
    by blast+
  with ap row show ?thesis by blast
qed

text \<open>
  When the commit of ledger 6 fails, \<open>ingest\<close> returns the error and the latest sequence
  of the entry store is still 5, while the event store and the transaction store, which
  held ledgers 3 to 5, hold ledgers 4 to 6.
\<close>

theorem C1_failed_commit_keeps_ledger:
  "ingest backend6 6 service345 \<noteq> None
   \<and> fst (the (ingest backend6 6 service345)) = Some (ExternalError 9)
   \<and> fst (GetLatestLedgerSequence
            (serviceDB (snd (the (ingest backend6 6 service345)))\<lparr>faults := []\<rparr>))
       = Some (Inr 5)
   \<and> ledgers_held (eventsByLedger (eventStore service345)) = [3, 4, 5]
   \<and> ledgers_held (transactionsByLedger (transactionStore service345)) = [3, 4, 5]
   \<and> ledgers_held (eventsByLedger (eventStore (snd (the (ingest backend6 6 service345)))))
       = [4, 5, 6]
   \<and> ledgers_held (transactionsByLedger (transactionStore (snd (the (ingest backend6 6 service345)))))
       = [4, 5, 6]"
proof (intro conjI)
  show "fst (GetLatestLedgerSequence
            (serviceDB (snd (the (ingest backend6 6 service345)))\<lparr>faults := []\<rparr>))
       = Some (Inr 5)"
    by (rule latest5_after_failure)
qed code_simp+

subsection \<open>Bootstrap and streaming\<close>




















end
